theory Spec2Isabelle
  imports Main "HOL-Library.Log_Nat"
begin

section \<open>Numbers\<close>

text \<open>
  A \<^verbatim>\<open>number\<close> of the source is an IEEE 754 double. Every finite double is a whole
  multiple of \<^verbatim>\<open>2^-1074\<close>, the smallest positive one: \<open>Fin k\<close> is the double
  \<^verbatim>\<open>k * 2^-1074\<close>, so \<open>Fin 0\<close> is \<open>+0\<close> and \<open>Fin (2 ^ 1074)\<close> is \<open>1\<close>. The other
  values are \<open>-0\<close>, the two infinities and NaN.
\<close>

datatype number = Fin int | NegZero | PosInf | NegInf | NaN

text \<open>Rounding to the nearest integer, a tie going to the even one.\<close>

definition rne :: "rat \<Rightarrow> int" where
  "rne x =
     (let f = \<lfloor>x\<rfloor>; d = x - of_int f
      in if d < 1 / 2 then f else if 1 / 2 < d then f + 1 else if even f then f else f + 1)"

text \<open>
  Rounding a non-negative quantity, given in units of \<^verbatim>\<open>2^-1074\<close>, to 53 significant
  bits: below \<open>2 ^ 53\<close> units the doubles are the integers (the subnormal range and the
  first binade), above they are the multiples of \<open>2 ^ s\<close> for the \<open>s\<close> that leaves 53 bits.
\<close>

definition round53 :: "rat \<Rightarrow> int" where
  "round53 u = (let s = nat (bitlen \<lfloor>u\<rfloor> - 53) in rne (u / 2 ^ s) * 2 ^ s)"

text \<open>
  The double nearest to an exact result that is not zero (round to nearest, ties to even):
  it overflows to an infinity from \<^verbatim>\<open>2^1024\<close> on, and a negative result that rounds to
  zero is \<open>-0\<close>. An exact zero is given its sign by each operation.
\<close>

definition fl :: "rat \<Rightarrow> number" where
  "fl u =
     (if u = 0 then Fin 0
      else if 0 < u then (let r = round53 u in if 2 ^ 2098 \<le> r then PosInf else Fin r)
      else (let r = round53 (- u)
            in if 2 ^ 2098 \<le> r then NegInf else if r = 0 then NegZero else Fin (- r)))"

text \<open>A decimal literal of the source denotes the double nearest to it.\<close>

definition lit :: "rat \<Rightarrow> number" where
  "lit q = fl (q * 2 ^ 1074)"

fun is_nan :: "number \<Rightarrow> bool" where
  "is_nan NaN = True"
| "is_nan _ = False"

fun is_inf :: "number \<Rightarrow> bool" where
  "is_inf PosInf = True"
| "is_inf NegInf = True"
| "is_inf _ = False"

fun is_zero :: "number \<Rightarrow> bool" where
  "is_zero (Fin k) = (k = 0)"
| "is_zero NegZero = True"
| "is_zero _ = False"

fun negative :: "number \<Rightarrow> bool" where
  "negative (Fin k) = (k < 0)"
| "negative NegZero = True"
| "negative NegInf = True"
| "negative _ = False"

fun mag :: "number \<Rightarrow> int" where
  "mag (Fin k) = k"
| "mag _ = 0"

definition signed_zero :: "bool \<Rightarrow> number" where
  "signed_zero neg = (if neg then NegZero else Fin 0)"

definition signed_inf :: "bool \<Rightarrow> number" where
  "signed_inf neg = (if neg then NegInf else PosInf)"

fun fneg :: "number \<Rightarrow> number" where
  "fneg (Fin k) = (if k = 0 then NegZero else Fin (- k))"
| "fneg NegZero = Fin 0"
| "fneg PosInf = NegInf"
| "fneg NegInf = PosInf"
| "fneg NaN = NaN"

text \<open>\<^verbatim>\<open>a + b\<close>: an exact sum of zero is \<open>+0\<close> unless both operands are \<open>-0\<close>.\<close>

definition fadd :: "number \<Rightarrow> number \<Rightarrow> number" where
  "fadd a b =
     (if is_nan a \<or> is_nan b then NaN
      else if is_inf a then (if is_inf b \<and> a \<noteq> b then NaN else a)
      else if is_inf b then b
      else if mag a + mag b = 0 then (if a = NegZero \<and> b = NegZero then NegZero else Fin 0)
      else fl (of_int (mag a + mag b)))"

text \<open>\<^verbatim>\<open>a - b\<close>\<close>

definition fsub :: "number \<Rightarrow> number \<Rightarrow> number" where
  "fsub a b = fadd a (fneg b)"

text \<open>\<^verbatim>\<open>a * b\<close>\<close>

definition fmul :: "number \<Rightarrow> number \<Rightarrow> number" where
  "fmul a b =
     (if is_nan a \<or> is_nan b then NaN
      else if is_inf a \<or> is_inf b
        then (if is_zero a \<or> is_zero b then NaN else signed_inf (negative a \<noteq> negative b))
      else if is_zero a \<or> is_zero b then signed_zero (negative a \<noteq> negative b)
      else fl (of_int (mag a * mag b) / 2 ^ 1074))"

text \<open>\<^verbatim>\<open>a / b\<close>\<close>

definition fdiv :: "number \<Rightarrow> number \<Rightarrow> number" where
  "fdiv a b =
     (if is_nan a \<or> is_nan b then NaN
      else if is_inf a then (if is_inf b then NaN else signed_inf (negative a \<noteq> negative b))
      else if is_inf b then signed_zero (negative a \<noteq> negative b)
      else if is_zero b then (if is_zero a then NaN else signed_inf (negative a \<noteq> negative b))
      else if is_zero a then signed_zero (negative a \<noteq> negative b)
      else fl (of_int (mag a) / of_int (mag b) * 2 ^ 1074))"

text \<open>The integer square root, by bisection: the largest \<open>f\<close> with \<open>f * f \<le> n\<close>.\<close>

function isqrt_between :: "int \<Rightarrow> int \<Rightarrow> int \<Rightarrow> int" where
  "isqrt_between n lo hi =
     (if hi \<le> lo + 1 then lo
      else (let mid = (lo + hi) div 2
            in if mid * mid \<le> n then isqrt_between n mid hi else isqrt_between n lo mid))"
  by pat_completeness auto
termination
  by (relation "measure (\<lambda>(n, lo, hi). nat (hi - lo))") auto

declare isqrt_between.simps [simp del]

definition isqrt :: "int \<Rightarrow> int" where
  "isqrt n = isqrt_between n 0 (n + 1)"

text \<open>
  \<^verbatim>\<open>Math.sqrt\<close>, correctly rounded. The root of \<open>k\<close> units is the root of \<open>k * 2 ^ 1074\<close>,
  in units; it is at least \<open>2 ^ 537\<close>, where the doubles and the midpoints between them
  are whole numbers of units: an inexact root rounds as its integer part plus one half
  does.
\<close>

fun fsqrt :: "number \<Rightarrow> number" where
  "fsqrt (Fin k) =
     (if k < 0 then NaN
      else if k = 0 then Fin 0
      else (let n = k * 2 ^ 1074; f = isqrt n
            in fl (of_int f + (if f * f = n then 0 else 1 / 2))))"
| "fsqrt NegZero = NegZero"
| "fsqrt PosInf = PosInf"
| "fsqrt NegInf = NaN"
| "fsqrt NaN = NaN"

text \<open>Comparisons: \<^verbatim>\<open>a < b\<close>, \<^verbatim>\<open>a === b\<close> and \<^verbatim>\<open>a >= b\<close>. Every comparison with NaN is
  false, and the two zeros are equal.\<close>

fun rank :: "number \<Rightarrow> int" where
  "rank NegInf = - 1"
| "rank PosInf = 1"
| "rank _ = 0"

definition fless :: "number \<Rightarrow> number \<Rightarrow> bool" where
  "fless a b =
     (\<not> is_nan a \<and> \<not> is_nan b \<and> (rank a < rank b \<or> rank a = rank b \<and> mag a < mag b))"

definition feq :: "number \<Rightarrow> number \<Rightarrow> bool" where
  "feq a b = (\<not> is_nan a \<and> \<not> is_nan b \<and> rank a = rank b \<and> mag a = mag b)"

definition fge :: "number \<Rightarrow> number \<Rightarrow> bool" where
  "fge a b = (fless b a \<or> feq a b)"

text \<open>The doubles among the values of the type: at most 53 significant bits, below
  \<^verbatim>\<open>2^1024\<close> in size.\<close>

fun is_double :: "number \<Rightarrow> bool" where
  "is_double (Fin k) =
     (\<bar>k\<bar> < 2 ^ 2098 \<and> 2 ^ nat (bitlen \<bar>k\<bar> - 53) dvd k)"
| "is_double _ = True"

text \<open>Doubles used below: \<open>1\<close>, the smallest positive double
  \<^verbatim>\<open>Number.MIN_VALUE = 2^-1074\<close>, and the powers \<^verbatim>\<open>2^500\<close>, \<^verbatim>\<open>2^600\<close> and
  \<^verbatim>\<open>2^1000\<close>.\<close>

definition one :: number where
  "one = Fin (2 ^ 1074)"

definition min_value :: number where
  "min_value = Fin 1"

definition two_500 :: number where
  "two_500 = Fin (2 ^ 1574)"

definition two_600 :: number where
  "two_600 = Fin (2 ^ 1674)"

definition two_1000 :: number where
  "two_1000 = Fin (2 ^ 2074)"

text \<open>Classes of values: neither NaN nor infinite; at least \<open>+0\<close>; above zero.\<close>

fun is_finite :: "number \<Rightarrow> bool" where
  "is_finite (Fin k) = True"
| "is_finite NegZero = True"
| "is_finite _ = False"


fun positive :: "number \<Rightarrow> bool" where
  "positive (Fin k) = (0 < k)"
| "positive PosInf = True"
| "positive _ = False"

section \<open>The embedder singleton\<close>

text \<open>
  The module keeps one variable, \<^verbatim>\<open>let embedder: any = null\<close>. The backend comes from
  the library \<^verbatim>\<open>@xenova/transformers\<close>: \<^verbatim>\<open>pipeline('feature-extraction', modelName)\<close>
  loads a model and gives a callable handle, or rejects; the handle, called on a text or
  a list of texts, gives a tensor, or rejects. Both are parameters of the model: functions
  of the outside world \<open>'w\<close> (network, disk, the library's caches) that return the
  outcome together with the world after the call. A handle is an object, so it is never
  falsy: \<^verbatim>\<open>!embedder\<close> holds exactly when the variable is still \<^verbatim>\<open>null\<close>.
\<close>

datatype pooling = Mean | Cls

datatype texts = Text string | Texts "string list"

record ('w, 'e, 'h, 'v) backend =
  pipeline :: "string \<Rightarrow> 'w \<Rightarrow> ('e + 'h) \<times> 'w"
  infer :: "'h \<Rightarrow> texts \<Rightarrow> pooling \<Rightarrow> bool \<Rightarrow> 'w \<Rightarrow> ('e + 'v list) \<times> 'w"

record ('w, 'h) module_state =
  embedder :: "'h option"
  world :: 'w

text \<open>What a call can throw: a rejection of the backend, or the TypeError of calling
  \<^verbatim>\<open>null\<close> as a function.\<close>

datatype 'e failure = BackendError 'e | TypeError

record options =
  modelName :: "string option"
  pooling :: "pooling option"
  normalize :: "bool option"

definition default_model :: string where
  "default_model = ''Xenova/all-MiniLM-L6-v2''"

definition the_default :: "'a \<Rightarrow> 'a option \<Rightarrow> 'a" where
  "the_default d x = (case x of None \<Rightarrow> d | Some v \<Rightarrow> v)"

text \<open>
  \<^verbatim>\<open>initializeEmbedder\<close>, one call run to its end with no other call in between. A
  rejected \<^verbatim>\<open>pipeline\<close> throws out of the \<^verbatim>\<open>await\<close> before the assignment, so the
  variable keeps its value.
\<close>

definition initializeEmbedder ::
  "('w, 'e, 'h, 'v) backend \<Rightarrow> string \<Rightarrow> ('w, 'h) module_state
     \<Rightarrow> ('e failure + 'h) \<times> ('w, 'h) module_state" where
  "initializeEmbedder B name s =
     (case embedder s of
        None \<Rightarrow>
          (case pipeline B name (world s) of
             (Inl e, w) \<Rightarrow> (Inl (BackendError e), s\<lparr>world := w\<rparr>)
           | (Inr h, w) \<Rightarrow> (Inr h, s\<lparr>embedder := Some h, world := w\<rparr>))
      | Some h \<Rightarrow> (Inr h, s))"

text \<open>The call \<^verbatim>\<open>await embedder(input, { pooling, normalize })\<close> followed by
  \<^verbatim>\<open>.tolist()\<close>; it reads the module variable again.\<close>

definition call_embedder ::
  "('w, 'e, 'h, 'v) backend \<Rightarrow> texts \<Rightarrow> options \<Rightarrow> ('w, 'h) module_state
     \<Rightarrow> ('e failure + 'v list) \<times> ('w, 'h) module_state" where
  "call_embedder B input opts s =
     (case embedder s of
        None \<Rightarrow> (Inl TypeError, s)
      | Some h \<Rightarrow>
          (case infer B h input (the_default Mean (pooling opts))
                  (the_default True (normalize opts)) (world s) of
             (Inl e, w) \<Rightarrow> (Inl (BackendError e), s\<lparr>world := w\<rparr>)
           | (Inr rows, w) \<Rightarrow> (Inr rows, s\<lparr>world := w\<rparr>)))"

text \<open>\<^verbatim>\<open>vectorize\<close> returns \<^verbatim>\<open>embedding.tolist()[0]\<close>: the first row, \<^verbatim>\<open>undefined\<close>
  (here \<open>None\<close>) when there is none.\<close>

definition vectorize ::
  "('w, 'e, 'h, 'v) backend \<Rightarrow> string \<Rightarrow> options \<Rightarrow> ('w, 'h) module_state
     \<Rightarrow> ('e failure + 'v option) \<times> ('w, 'h) module_state" where
  "vectorize B text opts s =
     (case initializeEmbedder B (the_default default_model (modelName opts)) s of
        (Inl e, s1) \<Rightarrow> (Inl e, s1)
      | (Inr _, s1) \<Rightarrow>
          (case call_embedder B (Text text) opts s1 of
             (Inl e, s2) \<Rightarrow> (Inl e, s2)
           | (Inr rows, s2) \<Rightarrow> (Inr (case rows of [] \<Rightarrow> None | r # _ \<Rightarrow> Some r), s2)))"

definition vectorizeBatch ::
  "('w, 'e, 'h, 'v) backend \<Rightarrow> string list \<Rightarrow> options \<Rightarrow> ('w, 'h) module_state
     \<Rightarrow> ('e failure + 'v list) \<times> ('w, 'h) module_state" where
  "vectorizeBatch B ts opts s =
     (case initializeEmbedder B (the_default default_model (modelName opts)) s of
        (Inl e, s1) \<Rightarrow> (Inl e, s1)
      | (Inr _, s1) \<Rightarrow> call_embedder B (Texts ts) opts s1)"

record model_info =
  isInitialized :: bool

definition getModelInfo :: "('w, 'h) module_state \<Rightarrow> model_info" where
  "getModelInfo s = \<lparr>isInitialized = (embedder s \<noteq> None)\<rparr>"

text \<open>A request to the module, and a sequence of requests served one after the other.\<close>

datatype request =
  Initialize string
  | Vectorize string options
  | VectorizeBatch "string list" options
  | ModelInfo

fun serve ::
  "('w, 'e, 'h, 'v) backend \<Rightarrow> request \<Rightarrow> ('w, 'h) module_state \<Rightarrow> ('w, 'h) module_state" where
  "serve B (Initialize name) s = snd (initializeEmbedder B name s)"
| "serve B (Vectorize text opts) s = snd (vectorize B text opts s)"
| "serve B (VectorizeBatch ts opts) s = snd (vectorizeBatch B ts opts s)"
| "serve B ModelInfo s = s"

fun serve_all ::
  "('w, 'e, 'h, 'v) backend \<Rightarrow> request list \<Rightarrow> ('w, 'h) module_state \<Rightarrow> ('w, 'h) module_state" where
  "serve_all B [] s = s"
| "serve_all B (r # rs) s = serve_all B rs (serve B r s)"

subsection \<open>Calls in flight at the same time\<close>

text \<open>
  An \<^verbatim>\<open>async\<close> function runs without interruption up to an \<^verbatim>\<open>await\<close>, where it is
  suspended, and other code runs until the awaited promise settles. A call of
  \<^verbatim>\<open>initializeEmbedder\<close> has one \<^verbatim>\<open>await\<close>, reached only when the variable was
  \<^verbatim>\<open>null\<close> at the test. So a call is in one of four places: about to be made
  (\<open>Called\<close>); suspended at \<^verbatim>\<open>await pipeline(...)\<close> (\<open>Awaiting\<close>); returned; or thrown.
  Making the call runs it up to the \<^verbatim>\<open>await\<close> or to its \<^verbatim>\<open>return\<close>; resuming it takes
  the backend's answer, and the backend's effect on the world, performs the assignment
  and returns.
\<close>

datatype ('e, 'h) call =
  Called string
  | Awaiting string
  | Returned 'h
  | Threw "'e failure"

fun resume ::
  "('w, 'e, 'h, 'v) backend \<Rightarrow> ('e, 'h) call \<Rightarrow> ('w, 'h) module_state
     \<Rightarrow> ('e, 'h) call \<times> ('w, 'h) module_state" where
  "resume B (Called name) s =
     (case embedder s of None \<Rightarrow> (Awaiting name, s) | Some h \<Rightarrow> (Returned h, s))"
| "resume B (Awaiting name) s =
     (case pipeline B name (world s) of
        (Inl e, w) \<Rightarrow> (Threw (BackendError e), s\<lparr>world := w\<rparr>)
      | (Inr h, w) \<Rightarrow> (Returned h, s\<lparr>embedder := Some h, world := w\<rparr>))"
| "resume B (Returned h) s = (Returned h, s)"
| "resume B (Threw e) s = (Threw e, s)"

text \<open>A call that is suspended at its \<^verbatim>\<open>await\<close>, waiting for the backend it asked for.\<close>

fun awaiting :: "('e, 'h) call \<Rightarrow> bool" where
  "awaiting (Awaiting name) = True"
| "awaiting _ = False"

text \<open>The calls in flight and the module state; a schedule names, step by step, the
  call that runs next.\<close>

definition run_call ::
  "('w, 'e, 'h, 'v) backend \<Rightarrow> ('e, 'h) call list \<times> ('w, 'h) module_state \<Rightarrow> nat
     \<Rightarrow> ('e, 'h) call list \<times> ('w, 'h) module_state" where
  "run_call B c i =
     (if i < length (fst c)
      then (case resume B (fst c ! i) (snd c) of (t, s) \<Rightarrow> ((fst c)[i := t], s))
      else c)"

definition run_schedule ::
  "('w, 'e, 'h, 'v) backend \<Rightarrow> nat list \<Rightarrow> ('e, 'h) call list \<times> ('w, 'h) module_state
     \<Rightarrow> ('e, 'h) call list \<times> ('w, 'h) module_state" where
  "run_schedule B sched c = foldl (run_call B) c sched"

text \<open>A backend that records every model it is asked to load: the world is the list of
  the models loaded so far, a handle is the model's name with its serial number.\<close>

definition logging_backend :: "(string list, string, string \<times> nat, nat) backend" where
  "logging_backend =
     \<lparr>pipeline = (\<lambda>name w. (Inr (name, length w), w @ [name])),
      infer = (\<lambda>h input p n w. (Inr [], w))\<rparr>"


section \<open>Vector operations\<close>

datatype js_error = Error string

text \<open>An array read \<^verbatim>\<open>v[i]!\<close>: past the end it is \<^verbatim>\<open>undefined\<close>, which arithmetic turns
  into NaN.\<close>

definition elem_at :: "number list \<Rightarrow> nat \<Rightarrow> number" where
  "elem_at v i = (if i < length v then v ! i else NaN)"

text \<open>The loop of \<^verbatim>\<open>cosineSimilarity\<close>, from index \<open>i\<close> on, with the three running sums.\<close>

function cosine_loop ::
  "number list \<Rightarrow> number list \<Rightarrow> nat \<Rightarrow> number \<times> number \<times> number
     \<Rightarrow> number \<times> number \<times> number" where
  "cosine_loop vectorA vectorB i (dotProduct, normA, normB) =
     (if i < length vectorA
      then cosine_loop vectorA vectorB (Suc i)
             (fadd dotProduct (fmul (elem_at vectorA i) (elem_at vectorB i)),
              fadd normA (fmul (elem_at vectorA i) (elem_at vectorA i)),
              fadd normB (fmul (elem_at vectorB i) (elem_at vectorB i)))
      else (dotProduct, normA, normB))"
  by pat_completeness auto
termination
  by (relation "measure (\<lambda>(a, b, i, acc). length a - i)") auto

declare cosine_loop.simps [simp del]

definition cosineSimilarity :: "number list \<Rightarrow> number list \<Rightarrow> js_error + number" where
  "cosineSimilarity vectorA vectorB =
     (if length vectorA \<noteq> length vectorB then Inl (Error ''Vectors must have the same length'')
      else (case cosine_loop vectorA vectorB 0 (Fin 0, Fin 0, Fin 0) of
              (dotProduct, normA, normB) \<Rightarrow>
                if feq normA (Fin 0) \<or> feq normB (Fin 0) then Inr (Fin 0)
                else Inr (fdiv dotProduct (fmul (fsqrt normA) (fsqrt normB)))))"

function euclidean_loop :: "number list \<Rightarrow> number list \<Rightarrow> nat \<Rightarrow> number \<Rightarrow> number" where
  "euclidean_loop vectorA vectorB i sum_acc =
     (if i < length vectorA
      then (let diff = fsub (elem_at vectorA i) (elem_at vectorB i)
            in euclidean_loop vectorA vectorB (Suc i) (fadd sum_acc (fmul diff diff)))
      else sum_acc)"
  by pat_completeness auto
termination
  by (relation "measure (\<lambda>(a, b, i, acc). length a - i)") auto

declare euclidean_loop.simps [simp del]

definition euclideanDistance :: "number list \<Rightarrow> number list \<Rightarrow> js_error + number" where
  "euclideanDistance vectorA vectorB =
     (if length vectorA \<noteq> length vectorB then Inl (Error ''Vectors must have the same length'')
      else Inr (fsqrt (euclidean_loop vectorA vectorB 0 (Fin 0))))"

text \<open>\<^verbatim>\<open>normalizeVector\<close> on values: \<^verbatim>\<open>reduce\<close> is a left fold from \<open>0\<close>.\<close>

definition normalizeVector :: "number list \<Rightarrow> number list" where
  "normalizeVector vector =
     (let norm = fsqrt (foldl (\<lambda>sum val. fadd sum (fmul val val)) (Fin 0) vector)
      in if feq norm (Fin 0) then vector else map (\<lambda>val. fdiv val norm) vector)"

text \<open>
  \<^verbatim>\<open>normalizeVector\<close> on arrays as objects. The heap is the list of the arrays allocated
  so far and a reference is a position in it; \<^verbatim>\<open>map\<close> allocates a new array, while
  \<^verbatim>\<open>return vector\<close> hands back the reference it was given.
\<close>

type_synonym heap = "number list list"

definition normalizeVector_ref :: "heap \<Rightarrow> nat \<Rightarrow> heap \<times> nat" where
  "normalizeVector_ref h vector =
     (let norm = fsqrt (foldl (\<lambda>sum val. fadd sum (fmul val val)) (Fin 0) (h ! vector))
      in if feq norm (Fin 0) then (h, vector)
         else (h @ [map (\<lambda>val. fdiv val norm) (h ! vector)], length h))"

record similarity_result =
  index :: nat
  similarity :: number

text \<open>\<^verbatim>\<open>vectors.map((vector, index) => ...)\<close>, from position \<open>i\<close> on: the first candidate
  whose length differs from the query's throws, and the error leaves \<^verbatim>\<open>findSimilar\<close>.\<close>

fun similarities ::
  "number list \<Rightarrow> number list list \<Rightarrow> nat \<Rightarrow> js_error + similarity_result list" where
  "similarities queryVector [] i = Inr []"
| "similarities queryVector (vector # vectors) i =
     (case cosineSimilarity queryVector vector of
        Inl e \<Rightarrow> Inl e
      | Inr s \<Rightarrow>
          (case similarities queryVector vectors (Suc i) of
             Inl e \<Rightarrow> Inl e
           | Inr rest \<Rightarrow> Inr (\<lparr>index = i, similarity = s\<rparr> # rest)))"

text \<open>
  \<^verbatim>\<open>Array.prototype.sort(comparefn)\<close>. The language fixes the result when the comparator
  is consistent: the elements in the comparator's order, equal ones in their original
  order (the sort is stable). Insertion from the right end computes that result: an
  element moves behind those that \<^verbatim>\<open>comparefn(x, y) > 0\<close> puts before it. A comparator
  result of NaN counts as \<open>0\<close>. With an inconsistent comparator the language leaves the order
  to the implementation, and this is then one possible order.
\<close>

fun sort_insert :: "('a \<Rightarrow> 'a \<Rightarrow> number) \<Rightarrow> 'a \<Rightarrow> 'a list \<Rightarrow> 'a list" where
  "sort_insert comparefn x [] = [x]"
| "sort_insert comparefn x (y # ys) =
     (if fless (Fin 0) (comparefn x y) then y # sort_insert comparefn x ys else x # y # ys)"

fun array_sort :: "('a \<Rightarrow> 'a \<Rightarrow> number) \<Rightarrow> 'a list \<Rightarrow> 'a list" where
  "array_sort comparefn [] = []"
| "array_sort comparefn (x # xs) = sort_insert comparefn x (array_sort comparefn xs)"

text \<open>\<^verbatim>\<open>xs.slice(0, end)\<close> for an integer \<^verbatim>\<open>end\<close>: a negative \<^verbatim>\<open>end\<close> counts from the
  end of the array.\<close>

definition slice0 :: "'a list \<Rightarrow> int \<Rightarrow> 'a list" where
  "slice0 xs e =
     (let len = int (length xs);
          final = (if e < 0 then max (len + e) 0 else min e len)
      in take (nat final) xs)"

definition findSimilar ::
  "number list \<Rightarrow> number list list \<Rightarrow> int \<Rightarrow> js_error + similarity_result list" where
  "findSimilar queryVector vectors topK =
     (case similarities queryVector vectors 0 of
        Inl e \<Rightarrow> Inl e
      | Inr sims \<Rightarrow>
          Inr (slice0 (array_sort (\<lambda>a b. fsub (similarity b) (similarity a)) sims) topK))"

text \<open>The comparator that \<^verbatim>\<open>findSimilar\<close> passes to \<^verbatim>\<open>sort\<close>, and the order it
  describes on results whose similarities are not NaN: the greater similarity first, and
  of two equal similarities the smaller index first.\<close>

definition by_similarity :: "similarity_result \<Rightarrow> similarity_result \<Rightarrow> number" where
  "by_similarity a b = fsub (similarity b) (similarity a)"

definition ranked_before :: "similarity_result \<Rightarrow> similarity_result \<Rightarrow> bool" where
  "ranked_before x y =
     (fless (similarity y) (similarity x) \<or>
      feq (similarity x) (similarity y) \<and> index x < index y)"

text \<open>The label of the \<^verbatim>\<open>/similarity\<close> route: the function \<^verbatim>\<open>getSimilarity\<close> of
  \<^verbatim>\<open>src/index.ts\<close>, and the conditional expression written in the route itself in the
  other copy of the application.\<close>

definition getSimilarity :: "number \<Rightarrow> string" where
  "getSimilarity s =
     (if fless (lit (8 / 10)) s then ''Very similar''
      else if fless (lit (6 / 10)) s then ''Similar''
      else if fless (lit (4 / 10)) s then ''Somewhat similar''
      else ''Not similar'')"

definition interpretation_label :: "number \<Rightarrow> string" where
  "interpretation_label s =
     (if fless (lit (8 / 10)) s then ''Very similar''
      else (if fless (lit (6 / 10)) s then ''Similar''
            else (if fless (lit (4 / 10)) s then ''Somewhat similar''
                  else ''Not similar'')))"

subsection \<open>The formulas of the specification\<close>

text \<open>
  The specification states its formulas over the real numbers. The value of a finite
  double is the real number it stands for; \<open>val\<close> is used on finite doubles only, the
  two zeros having the value \<open>0\<close>. The dot product of two vectors and the Euclidean
  norm of a vector are the formulas of the specification, on the values of the
  components.
\<close>

definition val :: "number \<Rightarrow> real" where
  "val x = of_int (mag x) / 2 ^ 1074"

definition dot_product :: "number list \<Rightarrow> number list \<Rightarrow> real" where
  "dot_product a b = sum_list (map2 (\<lambda>x y. val x * val y) a b)"

definition vector_norm :: "number list \<Rightarrow> real" where
  "vector_norm v = sqrt (sum_list (map (\<lambda>x. (val x)\<^sup>2) v))"

text \<open>
  The source computes in doubles, with no scaling of its intermediate results: a square
  overflows from about \<^verbatim>\<open>1.3e154\<close> on and underflows below about \<^verbatim>\<open>1.5e-162\<close>. The
  accuracy results below are stated for components that are zero or of a size between
  \<^verbatim>\<open>2^-500\<close> and \<^verbatim>\<open>2^500\<close>, where neither can happen.
\<close>

definition in_range :: "number \<Rightarrow> bool" where
  "in_range x \<longleftrightarrow> is_finite x \<and> (mag x = 0 \<or> 2 ^ 574 \<le> \<bar>mag x\<bar> \<and> \<bar>mag x\<bar> \<le> 2 ^ 1574)"

text \<open>
  One rounding changes a quantity by a factor between \<open>shrink\<close> and \<open>grow\<close>, which are
  \<^verbatim>\<open>1 - 2^-53\<close> and \<^verbatim>\<open>1 + 2^-53\<close>. Two non-negative quantities are \<open>near m\<close> when each
  is at least the other one shrunk \<open>m\<close> times: the computed one is then the exact one
  up to \<open>m\<close> roundings.
\<close>

definition shrink :: real where
  "shrink = 1 - 1 / 2 ^ 53"

definition grow :: real where
  "grow = 1 + 1 / 2 ^ 53"

definition near :: "nat \<Rightarrow> real \<Rightarrow> real \<Rightarrow> bool" where
  "near m x y \<longleftrightarrow> y * shrink ^ m \<le> x \<and> x * shrink ^ m \<le> y"
section \<open>Properties of the arithmetic\<close>

lemma rne_of_int: "rne (of_int n) = n"
  by (simp add: rne_def)

lemma rne_floor: "rne x = \<lfloor>x\<rfloor> \<or> rne x = \<lfloor>x\<rfloor> + 1"
  by (simp add: rne_def Let_def)

lemma rne_ge: "of_int n \<le> x \<Longrightarrow> n \<le> rne x"
proof -
  assume "of_int n \<le> x"
  then have "n \<le> \<lfloor>x\<rfloor>" by (simp add: le_floor_iff)
  then show ?thesis using rne_floor [of x] by auto
qed

lemma rne_le: "x \<le> of_int n \<Longrightarrow> rne x \<le> n"
proof (cases "x = of_int n")
  case True
  then show ?thesis by (simp add: rne_of_int)
next
  case False
  assume "x \<le> of_int n"
  with False have "x < of_int n" by simp
  then have "\<lfloor>x\<rfloor> < n" by (simp add: floor_less_iff)
  then show ?thesis using rne_floor [of x] by auto
qed

lemma rne_small: "0 \<le> x \<Longrightarrow> x \<le> 1 / 2 \<Longrightarrow> rne x = 0"
proof -
  assume a: "0 \<le> x" "x \<le> 1 / 2"
  then have f: "\<lfloor>x\<rfloor> = 0" by (simp add: floor_eq_iff)
  show ?thesis using a by (simp add: rne_def f)
qed


lemma round53_small: "0 \<le> u \<Longrightarrow> u \<le> 1 / 2 \<Longrightarrow> round53 u = 0"
proof -
  assume a: "0 \<le> u" "u \<le> 1 / 2"
  then have f: "\<lfloor>u\<rfloor> = 0" by (simp add: floor_eq_iff)
  show ?thesis using a by (simp add: round53_def f rne_small)
qed

text \<open>The shift leaves at least 52 bits in front of the point.\<close>

lemma shift_bound:
  assumes "1 \<le> u" and "s = nat (bitlen \<lfloor>u\<rfloor> - 53)" and "0 < s"
  shows "(2::rat) ^ (52 + s) \<le> u"
proof -
  have "of_int 1 \<le> u" using assms(1) by simp
  then have "1 \<le> \<lfloor>u\<rfloor>" by (simp only: le_floor_iff)
  then have pos: "0 < \<lfloor>u\<rfloor>" by simp
  have "bitlen \<lfloor>u\<rfloor> = int s + 53" using assms(2,3) by simp
  then have "nat (bitlen \<lfloor>u\<rfloor> - 1) = 52 + s" by simp
  with bitlen_bounds [OF pos] have "(2::int) ^ (52 + s) \<le> \<lfloor>u\<rfloor>" by simp
  then have "of_int ((2::int) ^ (52 + s)) \<le> u" by (simp only: le_floor_iff)
  then show ?thesis by simp
qed

lemma round53_ge_power:
  assumes "(2::rat) ^ n \<le> u"
  shows "2 ^ n \<le> round53 u"
proof -
  define s where "s = nat (bitlen \<lfloor>u\<rfloor> - 53)"
  have "(1::rat) \<le> 2 ^ n" by (rule one_le_power) simp
  from this assms have u1: "1 \<le> u" by (rule order_trans)
  have r: "round53 u = rne (u / 2 ^ s) * 2 ^ s" by (simp add: round53_def s_def Let_def)
  show ?thesis
  proof (cases "s \<le> n")
    case True
    then have "(2::rat) ^ n = 2 ^ (n - s) * 2 ^ s" by (simp flip: power_add)
    with assms have "(2::rat) ^ (n - s) \<le> u / 2 ^ s" by (simp add: pos_le_divide_eq)
    then have "of_int ((2::int) ^ (n - s)) \<le> u / 2 ^ s" by simp
    then have "2 ^ (n - s) \<le> rne (u / 2 ^ s)" by (rule rne_ge)
    then have "2 ^ (n - s) * 2 ^ s \<le> rne (u / 2 ^ s) * (2::int) ^ s" by simp
    then show ?thesis using True by (simp add: r flip: power_add)
  next
    case False
    then have "0 < s" by simp
    from shift_bound [OF u1 s_def this] have "(2::rat) ^ 52 \<le> u / 2 ^ s"
      by (simp add: pos_le_divide_eq power_add)
    then have "of_int ((2::int) ^ 52) \<le> u / 2 ^ s" by simp
    then have "2 ^ 52 \<le> rne (u / 2 ^ s)" by (rule rne_ge)
    then have one: "1 \<le> rne (u / 2 ^ s)" by simp
    have "(2::int) ^ n \<le> 2 ^ s" using False by (simp add: power_increasing)
    also have "\<dots> = 1 * 2 ^ s" by simp
    also have "\<dots> \<le> rne (u / 2 ^ s) * 2 ^ s"
      using one by (rule mult_right_mono) simp
    finally show ?thesis by (simp only: r)
  qed
qed

lemma round53_pos: "1 \<le> u \<Longrightarrow> 1 \<le> round53 u"
  using round53_ge_power [of 0 u] by simp

lemma round53_exact:
  assumes "0 \<le> k" and "is_double (Fin k)"
  shows "round53 (of_int k) = k"
proof -
  define s where "s = nat (bitlen k - 53)"
  from assms have "2 ^ s dvd k" by (simp add: s_def)
  then obtain m where m: "k = m * 2 ^ s" by (auto simp: dvd_def mult.commute)
  have "round53 (of_int k) = rne (of_int k / 2 ^ s) * 2 ^ s"
    by (simp add: round53_def s_def Let_def)
  also have "rat_of_int k / 2 ^ s = of_int m" by (simp add: m)
  finally show ?thesis by (simp add: rne_of_int m)
qed

lemma fl_exact: "is_double (Fin k) \<Longrightarrow> fl (of_int k) = Fin k"
proof -
  assume d: "is_double (Fin k)"
  consider "k = 0" | "0 < k" | "k < 0" by linarith
  then show ?thesis
  proof cases
    case 1
    then show ?thesis by (simp add: fl_def)
  next
    case 2
    with d have "round53 (of_int k) = k" by (simp add: round53_exact)
    with 2 d show ?thesis by (simp add: fl_def)
  next
    case 3
    from d have "is_double (Fin (- k))" by simp
    with 3 have "round53 (of_int (- k)) = - k" by (intro round53_exact) simp_all
    with 3 d show ?thesis by (simp add: fl_def)
  qed
qed

lemma fl_overflow: "2 ^ 2098 \<le> u \<Longrightarrow> fl u = PosInf"
proof -
  assume a: "2 ^ 2098 \<le> u"
  have "(0::rat) < 2 ^ 2098" by simp
  from this a have "0 < u" by (rule less_le_trans)
  moreover from a have "2 ^ 2098 \<le> round53 u" by (rule round53_ge_power)
  ultimately show ?thesis by (simp add: fl_def)
qed

lemma fl_underflow: "0 < u \<Longrightarrow> u \<le> 1 / 2 \<Longrightarrow> fl u = Fin 0"
  by (simp add: fl_def round53_small)

lemma fl_neg: "u \<noteq> 0 \<Longrightarrow> fl (- u) = fneg (fl u)"
  by (cases "0 < u") (auto simp: fl_def Let_def)


lemma fl_positive: "1 \<le> u \<Longrightarrow> positive (fl u)"
proof -
  assume a: "1 \<le> u"
  then have "1 \<le> round53 u" by (rule round53_pos)
  moreover from a have "0 < u" by simp
  ultimately show ?thesis by (simp add: fl_def Let_def)
qed

lemma positive_fneg: "positive (fneg x) \<Longrightarrow> \<not> positive x \<and> \<not> is_zero x \<and> \<not> is_nan x"
  by (cases x) (auto split: if_splits)

lemma feq_zero: "feq x (Fin 0) \<longleftrightarrow> is_zero x"
  by (cases x) (auto simp: feq_def)

lemma isqrt_between_correct:
  "0 \<le> lo \<Longrightarrow> lo < hi \<Longrightarrow> lo * lo \<le> n \<Longrightarrow> n < hi * hi \<Longrightarrow>
     isqrt_between n lo hi * isqrt_between n lo hi \<le> n \<and>
     n < (isqrt_between n lo hi + 1) * (isqrt_between n lo hi + 1) \<and>
     0 \<le> isqrt_between n lo hi"
proof (induction n lo hi rule: isqrt_between.induct)
  case (1 n lo hi)
  show ?case
  proof (cases "hi \<le> lo + 1")
    case True
    then have r: "isqrt_between n lo hi = lo" by (subst isqrt_between.simps) simp
    from True "1.prems" have "hi = lo + 1" by simp
    with "1.prems" have "n < (lo + 1) * (lo + 1)" by simp
    with "1.prems" show ?thesis unfolding r by simp
  next
    case False
    define mid where "mid = (lo + hi) div 2"
    have m: "lo < mid" "mid < hi" using False by (simp_all add: mid_def)
    show ?thesis
    proof (cases "mid * mid \<le> n")
      case True
      with "1.IH"(1) [OF False mid_def True] m "1.prems" False
      show ?thesis by (simp add: isqrt_between.simps [of n lo hi] mid_def [symmetric])
    next
      case F2: False
      with "1.IH"(2) [OF False mid_def F2] m "1.prems" False
      show ?thesis by (simp add: isqrt_between.simps [of n lo hi] mid_def [symmetric])
    qed
  qed
qed

lemma isqrt_correct:
  assumes "0 \<le> n"
  shows "isqrt n * isqrt n \<le> n \<and> n < (isqrt n + 1) * (isqrt n + 1) \<and> 0 \<le> isqrt n"
proof -
  have "n < (n + 1) * (n + 1)"
  proof -
    have e: "(n + 1) * (n + 1) = n * n + 2 * n + 1" by (simp add: algebra_simps)
    have "0 \<le> n * n" by simp
    with assms show ?thesis unfolding e by linarith
  qed
  with assms show ?thesis unfolding isqrt_def by (intro isqrt_between_correct) simp_all
qed

lemma isqrt_unique:
  assumes "0 \<le> m" and "m * m \<le> n" and "n < (m + 1) * (m + 1)"
  shows "isqrt n = m"
proof -
  have n0: "0 \<le> n" using assms(1,2) by (meson mult_nonneg_nonneg order_trans)
  note c = isqrt_correct [OF n0]
  let ?f = "isqrt n"
  have "\<not> ?f < m"
  proof
    assume "?f < m"
    then have "?f + 1 \<le> m" by simp
    with c have "(?f + 1) * (?f + 1) \<le> m * m" by (intro mult_mono) simp_all
    with c assms show False by simp
  qed
  moreover have "\<not> m < ?f"
  proof
    assume "m < ?f"
    then have "m + 1 \<le> ?f" by simp
    with assms have "(m + 1) * (m + 1) \<le> ?f * ?f" by (intro mult_mono) simp_all
    with c assms show False by simp
  qed
  ultimately show ?thesis by simp
qed

lemma isqrt_square: "0 \<le> m \<Longrightarrow> isqrt (m * m) = m"
proof (rule isqrt_unique)
  assume "0 \<le> m"
  then have "m * m < (m + 1) * (m + 1)" by (simp add: algebra_simps)
  then show "m * m < (m + 1) * (m + 1)" .
qed simp_all

lemma isqrt_pos: "1 \<le> n \<Longrightarrow> 1 \<le> isqrt n"
proof -
  assume a: "1 \<le> n"
  then have c: "n < (isqrt n + 1) * (isqrt n + 1)" "0 \<le> isqrt n"
    using isqrt_correct [of n] by simp_all
  show ?thesis
  proof (rule ccontr)
    assume "\<not> 1 \<le> isqrt n"
    with c have "isqrt n = 0" by simp
    with c a show False by simp
  qed
qed

lemma fsqrt_positive: "0 < k \<Longrightarrow> positive (fsqrt (Fin k))"
proof -
  assume k: "0 < k"
  define n where "n = k * 2 ^ 1074"
  have "1 \<le> k" using k by simp
  then have "1 * 1 \<le> k * (2::int) ^ 1074" by (intro mult_mono) simp_all
  then have "1 \<le> n" by (simp add: n_def)
  then have "1 \<le> isqrt n" by (rule isqrt_pos)
  then have "(1::rat) \<le> of_int (isqrt n) + (if isqrt n * isqrt n = n then 0 else 1 / 2)"
    by simp
  then have "positive (fl (of_int (isqrt n) + (if isqrt n * isqrt n = n then 0 else 1 / 2)))"
    by (rule fl_positive)
  with k show ?thesis by (simp add: Let_def n_def)
qed

lemma fsqrt_zero_iff: "is_zero (fsqrt x) \<longleftrightarrow> is_zero x"
proof (cases x)
  case (Fin k)
  consider "k < 0" | "k = 0" | "0 < k" by linarith
  then show ?thesis
  proof cases
    case 3
    from fsqrt_positive [OF 3] have "\<not> is_zero (fsqrt (Fin k))"
      by (cases "fsqrt (Fin k)") simp_all
    with 3 Fin show ?thesis by simp
  qed (simp_all add: Fin)
qed simp_all


lemma bitlen_power2: "bitlen (2 ^ n) = int n + 1"
  using bitlen_pow2 [of 1 n] by (simp add: bitlen_alt_def)

lemma is_double_power2: "n < 2098 \<Longrightarrow> is_double (Fin (2 ^ n))"
  by (simp add: bitlen_power2 le_imp_power_dvd del: power_numeral)

lemma fl_power2: "n < 2098 \<Longrightarrow> fl (2 ^ n) = Fin (2 ^ n)"
  using fl_exact [OF is_double_power2, of n] by simp

lemma fl_power2_overflow: "2098 \<le> n \<Longrightarrow> fl (2 ^ n) = PosInf"
  by (rule fl_overflow) (simp add: power_increasing del: power_numeral)

lemma power2_quotient:
  assumes "a + b = c + 1074"
  shows "rat_of_int (2 ^ a * 2 ^ b) / 2 ^ 1074 = 2 ^ c"
proof -
  have "(2::rat) ^ a * 2 ^ b = 2 ^ c * 2 ^ 1074"
    using assms by (simp only: power_add [symmetric])
  then show ?thesis by (simp del: power_numeral)
qed

lemma fmul_power2:
  assumes "a + b = c + 1074" and "c < 2098"
  shows "fmul (Fin (2 ^ a)) (Fin (2 ^ b)) = Fin (2 ^ c)"
  using assms(2)
  by (simp add: fmul_def power2_quotient [OF assms(1)] fl_power2
      del: power_numeral of_int_mult of_int_power)

lemma fmul_power2_overflow:
  assumes "a + b = c + 1074" and "2098 \<le> c"
  shows "fmul (Fin (2 ^ a)) (Fin (2 ^ b)) = PosInf"
  using assms(2)
  by (simp add: fmul_def power2_quotient [OF assms(1)] fl_power2_overflow
      del: power_numeral of_int_mult of_int_power)

lemma fmul_power2_underflow:
  assumes "a + b < 1074"
  shows "fmul (Fin (2 ^ a)) (Fin (2 ^ b)) = Fin 0"
proof -
  have "(2::rat) ^ (a + b) * 2 \<le> 2 ^ 1074"
  proof -
    have "(2::rat) ^ (a + b) * 2 = 2 ^ Suc (a + b)" by simp
    also have "\<dots> \<le> 2 ^ 1074" using assms by (intro power_increasing) simp_all
    finally show ?thesis .
  qed
  then have "rat_of_int (2 ^ a * 2 ^ b) / 2 ^ 1074 \<le> 1 / 2"
    by (simp add: power_add field_simps del: power_numeral)
  moreover have "0 < rat_of_int (2 ^ a * 2 ^ b) / 2 ^ 1074" by simp
  ultimately have "fl (rat_of_int (2 ^ a * 2 ^ b) / 2 ^ 1074) = Fin 0"
    by (intro fl_underflow)
  then show ?thesis by (simp add: fmul_def del: power_numeral of_int_mult of_int_power)
qed

lemma fadd_zero_power2: "n < 2098 \<Longrightarrow> fadd (Fin 0) (Fin (2 ^ n)) = Fin (2 ^ n)"
  by (simp add: fadd_def fl_power2 del: power_numeral)

lemma fadd_power2_zero: "n < 2098 \<Longrightarrow> fadd (Fin (2 ^ n)) (Fin 0) = Fin (2 ^ n)"
  by (simp add: fadd_def fl_power2 del: power_numeral)

lemma fsub_power2_zero: "n < 2098 \<Longrightarrow> fsub (Fin (2 ^ n)) (Fin 0) = Fin (2 ^ n)"
  by (simp add: fsub_def fadd_def fl_power2 del: power_numeral)

lemma fsub_zero_power2: "n < 2098 \<Longrightarrow> fsub (Fin 0) (Fin (2 ^ n)) = Fin (- (2 ^ n))"
  using fl_exact [of "- (2 ^ n)"] is_double_power2 [of n]
  by (simp add: fsub_def fadd_def del: power_numeral)

lemma fsqrt_power2:
  assumes "n + 1074 = 2 * r" and "r < 2098"
  shows "fsqrt (Fin (2 ^ n)) = Fin (2 ^ r)"
proof -
  have "(2::int) ^ n * 2 ^ 1074 = 2 ^ r * 2 ^ r"
    using assms(1) by (simp only: power_add [symmetric] mult_2)
  moreover have "isqrt (2 ^ r * 2 ^ r) = 2 ^ r"
    by (rule isqrt_square) simp
  moreover have "fl (2 ^ r) = Fin (2 ^ r)" using assms(2) by (rule fl_power2)
  ultimately show ?thesis by (simp del: power_numeral)
qed

lemma fdiv_power2:
  assumes "a + 1074 = c + b" and "c < 2098"
  shows "fdiv (Fin (2 ^ a)) (Fin (2 ^ b)) = Fin (2 ^ c)"
proof -
  have "(2::rat) ^ a * 2 ^ 1074 = 2 ^ c * 2 ^ b"
    using assms(1) by (simp only: power_add [symmetric])
  then have "rat_of_int (2 ^ a) / rat_of_int (2 ^ b) * 2 ^ 1074 = 2 ^ c"
    by (simp add: field_simps del: power_numeral)
  then show ?thesis using assms(2)
    by (simp add: fdiv_def fl_power2 del: power_numeral of_int_power)
qed

lemma fmul_one_one: "fmul one one = one"
  unfolding one_def by (rule fmul_power2 [where c = 1074]) simp_all

lemma fsqrt_one: "fsqrt one = one"
  unfolding one_def by (rule fsqrt_power2) simp_all

lemma fdiv_one_one: "fdiv one one = one"
  unfolding one_def by (rule fdiv_power2) simp_all

lemma fadd_zero_one: "fadd (Fin 0) one = one"
  unfolding one_def by (rule fadd_zero_power2) simp

lemma fadd_one_zero: "fadd one (Fin 0) = one"
  unfolding one_def by (rule fadd_power2_zero) simp

lemma fmul_zero_zero: "fmul (Fin 0) (Fin 0) = Fin 0"
  by (simp add: fmul_def signed_zero_def)

lemma fadd_zero_zero: "fadd (Fin 0) (Fin 0) = Fin 0"
  by (simp add: fadd_def)

lemma fmul_one_zero: "fmul one (Fin 0) = Fin 0" "fmul (Fin 0) one = Fin 0"
  by (simp_all add: fmul_def signed_zero_def one_def del: power_numeral)

lemma fdiv_zero_one: "fdiv (Fin 0) one = Fin 0"
  by (simp add: fdiv_def signed_zero_def one_def del: power_numeral)

lemma feq_one_zero: "\<not> feq one (Fin 0)"
  by (simp add: feq_def one_def del: power_numeral)

lemma feq_zero_zero: "feq (Fin 0) (Fin 0)"
  by (simp add: feq_def)

lemmas one_arith = fmul_one_one fsqrt_one fdiv_one_one fadd_zero_one fadd_one_zero
  fmul_zero_zero fadd_zero_zero fmul_one_zero fdiv_zero_one feq_one_zero feq_zero_zero

subsection \<open>The operations stay within the doubles\<close>

lemma is_double_fneg: "is_double (fneg x) = is_double x"
  by (cases x) simp_all

lemma is_double_bounds:
  assumes "0 \<le> m" and "m \<le> 2 ^ 53" and "m * 2 ^ s < 2 ^ 2098"
  shows "is_double (Fin (m * 2 ^ s))"
proof (cases "m = 0")
  case True
  then show ?thesis by simp
next
  case False
  with assms have mpos: "0 < m" by simp
  have b: "bitlen (m * 2 ^ s) = bitlen m + int s" using mpos by simp
  have "bitlen m \<le> 54"
  proof -
    have "m < 2 ^ 54" using assms(2) by simp
    then show ?thesis using bitlen_le_iff_power [of m 54] by simp
  qed
  then consider "bitlen m \<le> 53" | "bitlen m = 54" by linarith
  then have "2 ^ nat (bitlen m + int s - 53) dvd m * 2 ^ s"
  proof cases
    case 1
    then have "nat (bitlen m + int s - 53) \<le> s" by simp
    then have "(2::int) ^ nat (bitlen m + int s - 53) dvd 2 ^ s" by (rule le_imp_power_dvd)
    then show ?thesis by (rule dvd_mult)
  next
    case 2
    then have "2 ^ 53 \<le> m" using bitlen_bounds [OF mpos] by simp
    with assms(2) have m: "m = 2 ^ 53" by simp
    have "nat (bitlen m + int s - 53) = Suc s" using 2 by simp
    moreover have "m * 2 ^ s = 2 ^ (53 + s)" by (simp add: m power_add)
    ultimately show ?thesis by (simp add: le_imp_power_dvd del: power_Suc)
  qed
  moreover have "\<bar>m * 2 ^ s\<bar> = m * 2 ^ s" using assms(1) by simp
  ultimately show ?thesis using assms(3) b by simp
qed

lemma round53_is_double:
  assumes "0 \<le> u" and "round53 u < 2 ^ 2098"
  shows "is_double (Fin (round53 u))"
proof -
  define s where "s = nat (bitlen \<lfloor>u\<rfloor> - 53)"
  define m where "m = rne (u / 2 ^ s)"
  have r: "round53 u = m * 2 ^ s" by (simp add: round53_def s_def m_def Let_def)
  have f0: "0 \<le> \<lfloor>u\<rfloor>" using assms(1) by simp
  have "\<lfloor>u\<rfloor> < 2 ^ (53 + s)"
  proof (cases "0 < \<lfloor>u\<rfloor>")
    case True
    from bitlen_bounds [OF True] have "\<lfloor>u\<rfloor> < 2 ^ nat (bitlen \<lfloor>u\<rfloor>)" by simp
    also have "\<dots> \<le> 2 ^ (53 + s)" by (intro power_increasing) (simp_all add: s_def)
    finally show ?thesis .
  next
    case False
    with f0 have "\<lfloor>u\<rfloor> = 0" by linarith
    then show ?thesis by simp
  qed
  then have "u < of_int ((2::int) ^ (53 + s))" by (simp only: floor_less_iff)
  then have "u / 2 ^ s < 2 ^ 53" by (simp add: power_add field_simps)
  then have "u / 2 ^ s \<le> of_int ((2::int) ^ 53)" by simp
  then have m1: "m \<le> 2 ^ 53" unfolding m_def by (rule rne_le)
  have "of_int 0 \<le> u / 2 ^ s" using assms(1) by simp
  then have m0: "0 \<le> m" unfolding m_def by (rule rne_ge)
  from m0 m1 assms(2) show ?thesis unfolding r by (rule is_double_bounds)
qed

lemma is_double_fl: "is_double (fl u)"
proof -
  consider "u = 0" | "0 < u" | "u < 0" by linarith
  then show ?thesis
  proof cases
    case 1
    then show ?thesis by (simp add: fl_def)
  next
    case 2
    then show ?thesis
      using round53_is_double [of u] by (simp add: fl_def Let_def)
  next
    case 3
    then have "is_double (Fin (round53 (- u)))" if "round53 (- u) < 2 ^ 2098"
      using that round53_is_double [of "- u"] by simp
    then have "is_double (Fin (- round53 (- u)))" if "round53 (- u) < 2 ^ 2098"
      using that by simp
    with 3 show ?thesis by (simp add: fl_def Let_def)
  qed
qed

lemma is_double_fadd: "is_double a \<Longrightarrow> is_double b \<Longrightarrow> is_double (fadd a b)"
  by (simp add: fadd_def is_double_fl)

lemma is_double_fsub: "is_double a \<Longrightarrow> is_double b \<Longrightarrow> is_double (fsub a b)"
  by (simp add: fsub_def is_double_fadd is_double_fneg)

lemma is_double_fmul: "is_double (fmul a b)"
  by (simp add: fmul_def is_double_fl signed_inf_def signed_zero_def)

lemma is_double_fdiv: "is_double (fdiv a b)"
  by (simp add: fdiv_def is_double_fl signed_inf_def signed_zero_def)

lemma is_double_fsqrt: "is_double (fsqrt a)"
  by (cases a) (simp_all add: is_double_fl Let_def)

subsection \<open>Rounding a given quantity\<close>

text \<open>
  The rounded value is a double (above) within half a spacing of the exact one. When the
  exact quantity lies in a known binade and its scaled value is within one half of an
  integer \<open>m\<close>, or at one half from an even \<open>m\<close>, the result is \<open>m\<close> at that scale.
\<close>

lemma rne_error: "\<bar>of_int (rne x) - x\<bar> \<le> 1 / 2"
proof -
  have "of_int \<lfloor>x\<rfloor> \<le> x" "x < of_int \<lfloor>x\<rfloor> + 1" by linarith+
  then show ?thesis by (auto simp: rne_def Let_def)
qed

lemma round53_error:
  "\<bar>of_int (round53 u) - u\<bar> \<le> 2 ^ nat (bitlen \<lfloor>u\<rfloor> - 53) / 2"
proof -
  define s where "s = nat (bitlen \<lfloor>u\<rfloor> - 53)"
  define x where "x = u / 2 ^ s"
  have r: "round53 u = rne x * 2 ^ s" by (simp add: round53_def s_def x_def Let_def)
  have u: "u = x * 2 ^ s" by (simp add: x_def)
  have "of_int (round53 u) - u = (of_int (rne x) - x) * 2 ^ s"
    by (simp add: r algebra_simps) (simp add: u)
  then have "\<bar>of_int (round53 u) - u\<bar> = \<bar>of_int (rne x) - x\<bar> * 2 ^ s"
    by (simp add: abs_mult)
  also have "\<dots> \<le> 1 / 2 * 2 ^ s"
    using rne_error [of x] by (rule mult_right_mono) simp
  finally show ?thesis by (simp add: s_def)
qed

lemma rne_near: "\<bar>x - of_int m\<bar> < 1 / 2 \<Longrightarrow> rne x = m"
proof -
  assume a: "\<bar>x - of_int m\<bar> < 1 / 2"
  show ?thesis
  proof (cases "of_int m \<le> x")
    case True
    with a have "x < of_int m + 1" by linarith
    with True have f: "\<lfloor>x\<rfloor> = m" by (simp add: floor_eq_iff)
    from a True have "x - of_int m < 1 / 2" by linarith
    then show ?thesis by (simp add: rne_def f)
  next
    case False
    with a have "of_int m - 1 \<le> x" "x < of_int m" by linarith+
    then have "of_int (m - 1) \<le> x" "x < of_int (m - 1) + 1" by simp_all
    then have f: "\<lfloor>x\<rfloor> = m - 1" by (simp only: floor_eq_iff)
    from a False have "1 / 2 < x - (of_int m - 1)" by linarith
    then have "1 / 2 < x - of_int (m - 1)" by simp
    then show ?thesis by (simp add: rne_def f)
  qed
qed

lemma rne_tie: "even m \<Longrightarrow> x = of_int m + 1 / 2 \<or> x = of_int m - 1 / 2 \<Longrightarrow> rne x = m"
proof -
  assume m: "even m" and x: "x = of_int m + 1 / 2 \<or> x = of_int m - 1 / 2"
  from x show ?thesis
  proof
    assume a: "x = of_int m + 1 / 2"
    then have "of_int m \<le> x" "x < of_int m + 1" by simp_all
    then have f: "\<lfloor>x\<rfloor> = m" by (simp only: floor_eq_iff)
    have d: "x - of_int m = 1 / 2" using a by simp
    show ?thesis unfolding rne_def Let_def f d using m by simp
  next
    assume a: "x = of_int m - 1 / 2"
    then have "of_int (m - 1) \<le> x" "x < of_int (m - 1) + 1" by simp_all
    then have f: "\<lfloor>x\<rfloor> = m - 1" by (simp only: floor_eq_iff)
    have d: "x - of_int (m - 1) = 1 / 2" using a by simp
    show ?thesis unfolding rne_def Let_def f d using m by simp
  qed
qed

lemma fl_round:
  assumes "2 ^ (52 + s) \<le> u" and "u < 2 ^ (53 + s)" and "rne (u / 2 ^ s) = m"
    and "53 + s < 2098"
  shows "fl u = Fin (m * 2 ^ s)"
proof -
  have "of_int ((2::int) ^ (52 + s)) \<le> u" using assms(1) by simp
  then have lo: "2 ^ (52 + s) \<le> \<lfloor>u\<rfloor>" by (simp only: le_floor_iff)
  have "u < of_int ((2::int) ^ (53 + s))" using assms(2) by simp
  then have hi: "\<lfloor>u\<rfloor> < 2 ^ (53 + s)" by (simp only: floor_less_iff)
  have "bitlen \<lfloor>u\<rfloor> = int (53 + s)"
  proof -
    have "(0::int) < 2 ^ (52 + s)" by simp
    from this lo have p: "0 < \<lfloor>u\<rfloor>" by (rule less_le_trans)
    from bitlen_bounds [OF p] lo hi
    have "(2::int) ^ nat (bitlen \<lfloor>u\<rfloor> - 1) < 2 ^ (53 + s)"
      "(2::int) ^ (52 + s) < 2 ^ nat (bitlen \<lfloor>u\<rfloor>)"
      by linarith+
    then have "nat (bitlen \<lfloor>u\<rfloor> - 1) < 53 + s" "52 + s < nat (bitlen \<lfloor>u\<rfloor>)"
      by simp_all
    then show ?thesis by linarith
  qed
  then have r: "round53 u = m * 2 ^ s"
    by (simp add: round53_def assms(3))
  have "u / 2 ^ s < 2 ^ 53" using assms(2) by (simp add: field_simps power_add)
  then have "u / 2 ^ s \<le> of_int ((2::int) ^ 53)" by simp
  then have "rne (u / 2 ^ s) \<le> 2 ^ 53" by (rule rne_le)
  then have "m * 2 ^ s \<le> 2 ^ 53 * (2::int) ^ s"
    unfolding assms(3) by (intro mult_right_mono) simp_all
  also have "\<dots> = 2 ^ (53 + s)" by (simp add: power_add)
  also have "\<dots> < 2 ^ 2098" using assms(4) by (intro power_strict_increasing) simp_all
  finally have b: "m * 2 ^ s < 2 ^ 2098" .
  have "(0::rat) < 2 ^ (52 + s)" by simp
  from this assms(1) have "0 < u" by (rule less_le_trans)
  with r b show ?thesis by (simp add: fl_def)
qed

lemma fl_near:
  assumes "2 ^ (52 + s) \<le> u" and "u < 2 ^ (53 + s)" and "\<bar>u / 2 ^ s - of_int m\<bar> < 1 / 2"
    and "53 + s < 2098"
  shows "fl u = Fin (m * 2 ^ s)"
  using assms(1,2) rne_near [OF assms(3)] assms(4) by (rule fl_round)

lemma fadd_tie:
  assumes "a + b \<noteq> 0"
    and "2 ^ (52 + s) \<le> rat_of_int (a + b)"
    and "rat_of_int (a + b) < 2 ^ (53 + s)"
    and "even m"
    and "rat_of_int (a + b) / 2 ^ s = of_int m + 1 / 2 \<or>
         rat_of_int (a + b) / 2 ^ s = of_int m - 1 / 2"
    and "53 + s < 2098"
  shows "fadd (Fin a) (Fin b) = Fin (m * 2 ^ s)"
  using assms(1) fl_round [OF assms(2,3) rne_tie [OF assms(4,5)] assms(6)]
  by (simp add: fadd_def del: of_int_add)

lemma fmul_near:
  assumes "a \<noteq> 0" and "b \<noteq> 0"
    and "2 ^ (52 + s) \<le> rat_of_int (a * b) / 2 ^ 1074"
    and "rat_of_int (a * b) / 2 ^ 1074 < 2 ^ (53 + s)"
    and "\<bar>rat_of_int (a * b) / 2 ^ 1074 / 2 ^ s - of_int m\<bar> < 1 / 2"
    and "53 + s < 2098"
  shows "fmul (Fin a) (Fin b) = Fin (m * 2 ^ s)"
  using assms(1,2) fl_near [OF assms(3-6)] by (simp add: fmul_def del: of_int_mult)

lemma fadd_near:
  assumes "a + b \<noteq> 0"
    and "2 ^ (52 + s) \<le> rat_of_int (a + b)"
    and "rat_of_int (a + b) < 2 ^ (53 + s)"
    and "\<bar>rat_of_int (a + b) / 2 ^ s - of_int m\<bar> < 1 / 2"
    and "53 + s < 2098"
  shows "fadd (Fin a) (Fin b) = Fin (m * 2 ^ s)"
  using assms(1) fl_near [OF assms(2-5)] by (simp add: fadd_def del: of_int_add)

lemma fdiv_near:
  assumes "a \<noteq> 0" and "b \<noteq> 0"
    and "2 ^ (52 + s) \<le> rat_of_int a / rat_of_int b * 2 ^ 1074"
    and "rat_of_int a / rat_of_int b * 2 ^ 1074 < 2 ^ (53 + s)"
    and "\<bar>rat_of_int a / rat_of_int b * 2 ^ 1074 / 2 ^ s - of_int m\<bar> < 1 / 2"
    and "53 + s < 2098"
  shows "fdiv (Fin a) (Fin b) = Fin (m * 2 ^ s)"
  using assms(1,2) fl_near [OF assms(3-6)] by (simp add: fdiv_def)

lemma fsqrt_near:
  assumes "0 < k" and "0 \<le> f" and "f * f < k * 2 ^ 1074" and "k * 2 ^ 1074 < (f + 1) * (f + 1)"
    and "2 ^ (52 + s) \<le> rat_of_int f + 1 / 2"
    and "rat_of_int f + 1 / 2 < 2 ^ (53 + s)"
    and "\<bar>(rat_of_int f + 1 / 2) / 2 ^ s - of_int m\<bar> < 1 / 2"
    and "53 + s < 2098"
  shows "fsqrt (Fin k) = Fin (m * 2 ^ s)"
proof -
  have "isqrt (k * 2 ^ 1074) = f" using assms(2-4) by (intro isqrt_unique) simp_all
  moreover have "f * f \<noteq> k * 2 ^ 1074" using assms(3) by simp
  ultimately show ?thesis
    using assms(1) fl_near [OF assms(5-8)] by (simp add: Let_def)
qed

lemma fmul_one_left: "is_double (Fin k) \<Longrightarrow> fmul one (Fin k) = Fin k"
proof (cases "k = 0")
  case True
  then show ?thesis by (simp add: fmul_def one_def signed_zero_def del: power_numeral)
next
  case False
  assume d: "is_double (Fin k)"
  have "rat_of_int (2 ^ 1074 * k) / 2 ^ 1074 = rat_of_int k" by simp
  with False fl_exact [OF d] show ?thesis
    by (simp add: fmul_def one_def del: power_numeral of_int_mult)
qed

lemma fadd_zero_left: "is_double (Fin k) \<Longrightarrow> fadd (Fin 0) (Fin k) = Fin k"
  using fl_exact [of k] by (simp add: fadd_def)

lemma fadd_zero_right: "is_double (Fin k) \<Longrightarrow> fadd (Fin k) (Fin 0) = Fin k"
  using fl_exact [of k] by (simp add: fadd_def)

lemma fmul_zero_pos: "0 < k \<Longrightarrow> fmul (Fin 0) (Fin k) = Fin 0"
  by (simp add: fmul_def signed_zero_def)

lemma fsqrt_exact:
  assumes "0 < k" and "0 \<le> f" and "f * f = k * 2 ^ 1074" and "is_double (Fin f)"
  shows "fsqrt (Fin k) = Fin f"
proof -
  have "isqrt (f * f) = f" using assms(2) by (rule isqrt_square)
  then have "isqrt (k * 2 ^ 1074) = f" by (simp only: assms(3))
  with assms(1,3) fl_exact [OF assms(4)] show ?thesis by (simp add: Let_def)
qed

lemma is_double_scaled: "0 \<le> m \<Longrightarrow> m \<le> 2 ^ 53 \<Longrightarrow> 53 + s < 2098 \<Longrightarrow> is_double (Fin (m * 2 ^ s))"
proof (rule is_double_bounds)
  assume m: "0 \<le> m" "m \<le> 2 ^ 53" and s: "53 + s < 2098"
  have "m * 2 ^ s \<le> 2 ^ 53 * (2::int) ^ s" using m by (intro mult_right_mono) simp_all
  also have "\<dots> = 2 ^ (53 + s)" by (simp add: power_add)
  also have "\<dots> < 2 ^ 2098" using s by (intro power_strict_increasing) simp_all
  finally show "m * 2 ^ s < 2 ^ 2098" .
qed

lemma fsub_zero_left: "is_double (Fin k) \<Longrightarrow> k \<noteq> 0 \<Longrightarrow> fsub (Fin 0) (Fin k) = Fin (- k)"
proof -
  assume d: "is_double (Fin k)" and k: "k \<noteq> 0"
  from d have "is_double (Fin (- k))" by simp
  from fl_exact [OF this] k show ?thesis by (simp add: fsub_def fadd_def)
qed

lemma fmul_minus_minus:
  "a \<noteq> 0 \<Longrightarrow> b \<noteq> 0 \<Longrightarrow> fmul (Fin (- a)) (Fin (- b)) = fmul (Fin a) (Fin b)"
  by (auto simp: fmul_def)

subsection \<open>The error of one operation\<close>

text \<open>
  An operation returns the double nearest to its exact result. Within the normal range,
  results of a size between \<^verbatim>\<open>2^-1022\<close> and \<^verbatim>\<open>2^1023\<close>, the error is at most the
  fraction \<^verbatim>\<open>2^-53\<close> of the exact result; below it, for a quotient, at most half the
  smallest double in addition. A sum of doubles is a whole number of units, so that it
  has no error of the second kind; the square root of a double is never that small.
\<close>

lemma round53_relative:
  assumes "2 ^ 52 \<le> u"
  shows "\<bar>of_int (round53 u) - u\<bar> \<le> u / 2 ^ 53"
proof -
  define s where "s = nat (bitlen \<lfloor>u\<rfloor> - 53)"
  have e: "\<bar>of_int (round53 u) - u\<bar> \<le> 2 ^ s / 2" unfolding s_def by (rule round53_error)
  have "(2::rat) ^ s / 2 \<le> u / 2 ^ 53"
  proof (cases "0 < s")
    case True
    have "1 \<le> u" using assms by simp
    from shift_bound [OF this s_def True] have "2 ^ (52 + s) \<le> u" .
    then show ?thesis by (simp add: power_add)
  next
    case False
    then have "s = 0" by simp
    with assms show ?thesis by simp
  qed
  with e show ?thesis by linarith
qed

lemma fl_relative:
  assumes "2 ^ 52 \<le> u" and "u \<le> 2 ^ 2097"
  shows "\<exists>k. fl u = Fin k \<and> 0 < k \<and> \<bar>of_int k - u\<bar> \<le> u / 2 ^ 53"
proof -
  have u0: "0 < u" using assms(1) by simp
  note e = round53_relative [OF assms(1)]
  have "u / 2 ^ 53 < u" using u0 by simp
  with e have "of_int (round53 u) < 2 * u" by linarith
  also have "\<dots> \<le> 2 * 2 ^ 2097" using assms(2) by simp
  also have "\<dots> = of_int (2 ^ 2098)" by simp
  finally have lt: "round53 u < 2 ^ 2098" by (simp only: of_int_less_iff)
  have "2 ^ 52 \<le> round53 u" using assms(1) by (rule round53_ge_power)
  then have pos: "0 < round53 u" by simp
  from u0 lt have "fl u = Fin (round53 u)" by (simp add: fl_def)
  with pos e show ?thesis by blast
qed

lemma val_Fin: "val (Fin k) = of_int k / 2 ^ 1074"
  by (simp add: val_def)

lemma val_zero_iff: "is_finite x \<Longrightarrow> val x = 0 \<longleftrightarrow> is_zero x"
  by (cases x) (simp_all add: val_def)

lemma round53_absolute:
  assumes "0 \<le> u" and "u \<le> 2 ^ 2097"
  shows "round53 u < 2 ^ 2098 \<and> \<bar>of_int (round53 u) - u\<bar> \<le> u / 2 ^ 53 + 1 / 2"
proof (cases "2 ^ 52 \<le> u")
  case True
  from fl_relative [OF True assms(2)] obtain k where k: "fl u = Fin k" by blast
  have "0 < u" using True by simp
  with k have "round53 u < 2 ^ 2098" by (simp add: fl_def Let_def split: if_splits)
  moreover have "\<bar>of_int (round53 u) - u\<bar> \<le> u / 2 ^ 53 + 1 / 2"
    using round53_relative [OF True] by linarith
  ultimately show ?thesis by simp
next
  case False
  then have "u < of_int (2 ^ 52)" by simp
  then have "\<lfloor>u\<rfloor> < 2 ^ 52" by (simp only: floor_less_iff)
  then have "\<lfloor>u\<rfloor> < 2 ^ nat 53" by simp
  then have "bitlen \<lfloor>u\<rfloor> \<le> 53" by (simp only: bitlen_le_iff_power) simp
  then have s: "nat (bitlen \<lfloor>u\<rfloor> - 53) = 0" by simp
  have e: "\<bar>of_int (round53 u) - u\<bar> \<le> 1 / 2"
    using round53_error [of u] by (simp add: s)
  have "u < 2 ^ 52" using False by simp
  with e have "of_int (round53 u) < (2::rat) ^ 52 + 1" by linarith
  also have "\<dots> < of_int (2 ^ 2098)" by simp
  finally have "round53 u < 2 ^ 2098" by (simp only: of_int_less_iff)
  moreover have "0 \<le> u / 2 ^ 53" using assms(1) by simp
  ultimately show ?thesis using e by linarith
qed

lemma of_rat_abs_le:
  "\<bar>of_int k - u\<bar> \<le> w \<Longrightarrow> \<bar>real_of_int k - of_rat u\<bar> \<le> of_rat w"
proof -
  assume "\<bar>of_int k - u\<bar> \<le> w"
  then have "(of_rat \<bar>of_int k - u\<bar> :: real) \<le> of_rat w" by (simp only: of_rat_less_eq)
  then have "\<bar>of_rat (of_int k - u) :: real\<bar> \<le> of_rat w" by (simp only: abs_of_rat)
  then show ?thesis by (simp add: of_rat_diff)
qed

lemma fl_error_abs:
  assumes "\<bar>u\<bar> \<le> 2 ^ 2097"
  shows "is_finite (fl u) \<and>
     \<bar>real_of_int (mag (fl u)) - of_rat u\<bar> \<le> \<bar>of_rat u\<bar> / 2 ^ 53 + 1 / 2"
proof -
  consider "u = 0" | "0 < u" | "u < 0" by linarith
  then show ?thesis
  proof cases
    case 1
    then show ?thesis by (simp add: fl_def)
  next
    case 2
    with assms have "0 \<le> u" "u \<le> 2 ^ 2097" by simp_all
    from round53_absolute [OF this] 2 have f: "fl u = Fin (round53 u)"
      and e: "\<bar>of_int (round53 u) - u\<bar> \<le> u / 2 ^ 53 + 1 / 2" by (simp_all add: fl_def)
    from of_rat_abs_le [OF e] have "\<bar>real_of_int (round53 u) - of_rat u\<bar> \<le> of_rat u / 2 ^ 53 + 1 / 2"
      by (simp add: of_rat_add of_rat_divide of_rat_power)
    moreover have "(0::real) < of_rat u" using 2 by simp
    ultimately show ?thesis by (simp add: f)
  next
    case 3
    with assms have "0 \<le> - u" "- u \<le> 2 ^ 2097" by simp_all
    from round53_absolute [OF this] have lt: "round53 (- u) < 2 ^ 2098"
      and e: "\<bar>of_int (round53 (- u)) - (- u)\<bar> \<le> (- u) / 2 ^ 53 + 1 / 2" by simp_all
    from of_rat_abs_le [OF e]
    have e': "\<bar>real_of_int (round53 (- u)) + of_rat u\<bar> \<le> - of_rat u / 2 ^ 53 + 1 / 2"
      by (simp add: of_rat_add of_rat_diff of_rat_divide of_rat_power of_rat_minus)
    have "(of_rat u :: real) < 0" using 3 by simp
    then have a1: "\<bar>of_rat u :: real\<bar> = - of_rat u" by (simp add: of_rat_minus)
    have m: "mag (fl u) = - round53 (- u)" and fin: "is_finite (fl u)"
      using 3 lt by (simp_all add: fl_def Let_def)
    have "\<bar>real_of_int (- round53 (- u)) - of_rat u\<bar> = \<bar>real_of_int (round53 (- u)) + of_rat u\<bar>"
      by simp
    with e' have "\<bar>real_of_int (mag (fl u)) - of_rat u\<bar> \<le> \<bar>of_rat u\<bar> / 2 ^ 53 + 1 / 2"
      unfolding a1 m by simp
    with fin show ?thesis by simp
  qed
qed

lemma fl_error:
  assumes "2 ^ 52 \<le> \<bar>u\<bar>" and "\<bar>u\<bar> \<le> 2 ^ 2097"
  shows "is_finite (fl u) \<and> \<bar>real_of_int (mag (fl u)) - of_rat u\<bar> \<le> \<bar>of_rat u\<bar> / 2 ^ 53"
proof (cases "0 < u")
  case True
  with assms have a: "2 ^ 52 \<le> u" "u \<le> 2 ^ 2097" by simp_all
  from fl_relative [OF a] obtain k where k: "fl u = Fin k"
    "\<bar>of_int k - u\<bar> \<le> u / 2 ^ 53" by blast
  from of_rat_abs_le [OF k(2)] have "\<bar>real_of_int k - of_rat u\<bar> \<le> of_rat u / 2 ^ 53"
    by (simp add: of_rat_divide of_rat_power)
  moreover have "(0::real) < of_rat u" using True by simp
  ultimately show ?thesis by (simp add: k(1))
next
  case False
  have "(0::rat) < 2 ^ 52" by simp
  with assms(1) have "u \<noteq> 0" by auto
  with False have neg: "u < 0" by simp
  with assms have a: "2 ^ 52 \<le> - u" "- u \<le> 2 ^ 2097" by simp_all
  from fl_relative [OF a] obtain k where k: "fl (- u) = Fin k" "0 < k"
    "\<bar>of_int k - (- u)\<bar> \<le> (- u) / 2 ^ 53" by blast
  from of_rat_abs_le [OF k(3)] have e: "\<bar>real_of_int k + of_rat u\<bar> \<le> - of_rat u / 2 ^ 53"
    by (simp add: of_rat_divide of_rat_power of_rat_minus)
  have "fl u = fneg (fl (- u))" using fl_neg [of "- u"] \<open>u \<noteq> 0\<close> by simp
  with k have f: "fl u = Fin (- k)" by simp
  have "(of_rat u :: real) < 0" using neg by simp
  then have a1: "\<bar>of_rat u :: real\<bar> = - of_rat u" by (simp add: of_rat_minus)
  have "\<bar>real_of_int (- k) - of_rat u\<bar> = \<bar>real_of_int k + of_rat u\<bar>" by simp
  with e have "\<bar>real_of_int (mag (fl u)) - of_rat u\<bar> \<le> \<bar>of_rat u\<bar> / 2 ^ 53"
    unfolding a1 f by simp
  then show ?thesis by (simp add: f)
qed

lemma fl_int_error:
  assumes "\<bar>n\<bar> \<le> 2 ^ 2097"
  shows "is_finite (fl (of_int n)) \<and>
     \<bar>real_of_int (mag (fl (of_int n))) - of_int n\<bar> \<le> \<bar>of_int n\<bar> / 2 ^ 53"
proof (cases "2 ^ 52 \<le> \<bar>n\<bar>")
  case True
  then have "(2::rat) ^ 52 \<le> \<bar>of_int n\<bar>"
    by (metis of_int_abs of_int_le_iff of_int_numeral of_int_power)
  moreover have "\<bar>rat_of_int n\<bar> \<le> 2 ^ 2097" using assms
    by (metis of_int_abs of_int_le_iff of_int_numeral of_int_power)
  ultimately show ?thesis using fl_error [of "of_int n"] by simp
next
  case False
  then have "\<bar>n\<bar> < 2 ^ nat 53" by simp
  then have "bitlen \<bar>n\<bar> \<le> 53" by (simp only: bitlen_le_iff_power) simp
  then have s: "nat (bitlen \<bar>n\<bar> - 53) = 0" by simp
  have "\<bar>n\<bar> < 2 ^ 2098" using False by simp
  then have "is_double (Fin n)" by (simp add: s)
  then have "fl (of_int n) = Fin n" by (rule fl_exact)
  then show ?thesis by simp
qed

lemma fl_val_error_abs:
  assumes "of_rat u / 2 ^ 1074 = v" and "\<bar>v\<bar> \<le> 2 ^ 1023"
  shows "is_finite (fl u) \<and> \<bar>val (fl u) - v\<bar> \<le> \<bar>v\<bar> / 2 ^ 53 + 1 / 2 ^ 1075"
proof -
  define U :: real where "U = 2 ^ 1074"
  have U: "0 < U" by (simp add: U_def)
  define t :: real where "t = of_rat u"
  have v: "v = t / U" using assms(1) by (simp add: t_def U_def)
  have "\<bar>t\<bar> = \<bar>v\<bar> * U" using U by (simp add: v abs_divide)
  also have "\<dots> \<le> 2 ^ 1023 * U" using assms(2) by (rule mult_right_mono) (simp add: U less_imp_le)
  also have "\<dots> = 2 ^ 2097" by (simp add: U_def)
  also have "\<dots> = of_rat (2 ^ 2097)" by (simp only: of_rat_power of_rat_numeral_eq)
  finally have "(of_rat \<bar>u\<bar> :: real) \<le> of_rat (2 ^ 2097)" unfolding t_def abs_of_rat .
  then have "\<bar>u\<bar> \<le> 2 ^ 2097" by (simp only: of_rat_less_eq)
  from fl_error_abs [OF this] have fin: "is_finite (fl u)"
    and e: "\<bar>real_of_int (mag (fl u)) - t\<bar> \<le> \<bar>t\<bar> / 2 ^ 53 + 1 / 2" by (simp_all add: t_def)
  have "val (fl u) - v = (real_of_int (mag (fl u)) - t) / U"
    by (simp add: val_def v U_def diff_divide_distrib)
  then have "\<bar>val (fl u) - v\<bar> = \<bar>real_of_int (mag (fl u)) - t\<bar> / U"
    using U by (simp add: abs_divide)
  also have "\<dots> \<le> (\<bar>t\<bar> / 2 ^ 53 + 1 / 2) / U"
    using e by (rule divide_right_mono) (simp add: U less_imp_le)
  also have "\<dots> = \<bar>t / U\<bar> / 2 ^ 53 + 1 / (2 * U)"
    using U by (simp add: abs_divide add_divide_distrib)
  also have "1 / (2 * U) = 1 / 2 ^ 1075" by (simp add: U_def)
  finally show ?thesis using fin by (simp add: v)
qed

lemma fl_val_error:
  assumes "of_rat u / 2 ^ 1074 = v" and "1 / 2 ^ 1022 \<le> \<bar>v\<bar>" and "\<bar>v\<bar> \<le> 2 ^ 1023"
  shows "is_finite (fl u) \<and> \<bar>val (fl u) - v\<bar> \<le> \<bar>v\<bar> / 2 ^ 53"
proof -
  define U :: real where "U = 2 ^ 1074"
  have U: "0 < U" by (simp add: U_def)
  define t :: real where "t = of_rat u"
  have v: "v = t / U" using assms(1) by (simp add: t_def U_def)
  have tv: "\<bar>t\<bar> = \<bar>v\<bar> * U" using U by (simp add: v abs_divide)
  also have "\<dots> \<le> 2 ^ 1023 * U" using assms(3) by (rule mult_right_mono) (simp add: U less_imp_le)
  also have "\<dots> = 2 ^ 2097" by (simp add: U_def)
  also have "\<dots> = of_rat (2 ^ 2097)" by (simp only: of_rat_power of_rat_numeral_eq)
  finally have "(of_rat \<bar>u\<bar> :: real) \<le> of_rat (2 ^ 2097)" unfolding t_def abs_of_rat .
  then have hi: "\<bar>u\<bar> \<le> 2 ^ 2097" by (simp only: of_rat_less_eq)
  have "(of_rat (2 ^ 52) :: real) = 2 ^ 52" by (simp only: of_rat_power of_rat_numeral_eq)
  also have "\<dots> = 1 / 2 ^ 1022 * U" by (simp add: U_def)
  also have "\<dots> \<le> \<bar>v\<bar> * U" using assms(2) by (rule mult_right_mono) (simp add: U less_imp_le)
  also have "\<dots> = of_rat \<bar>u\<bar>" using tv [symmetric] by (simp only: t_def abs_of_rat)
  finally have lo: "2 ^ 52 \<le> \<bar>u\<bar>" by (simp only: of_rat_less_eq)
  from fl_error [OF lo hi] have fin: "is_finite (fl u)"
    and e: "\<bar>real_of_int (mag (fl u)) - t\<bar> \<le> \<bar>t\<bar> / 2 ^ 53" by (simp_all add: t_def)
  have "val (fl u) - v = (real_of_int (mag (fl u)) - t) / U"
    by (simp add: val_def v U_def diff_divide_distrib)
  then have "\<bar>val (fl u) - v\<bar> = \<bar>real_of_int (mag (fl u)) - t\<bar> / U"
    using U by (simp add: abs_divide)
  also have "\<dots> \<le> (\<bar>t\<bar> / 2 ^ 53) / U"
    using e by (rule divide_right_mono) (simp add: U less_imp_le)
  also have "\<dots> = \<bar>t / U\<bar> / 2 ^ 53"
    using U by (simp add: abs_divide)
  finally show ?thesis using fin by (simp add: v)
qed

lemma finite_cases:
  assumes "is_finite a"
  shows "\<not> is_nan a \<and> \<not> is_inf a"
  using assms by (cases a) simp_all

lemma fadd_error:
  assumes "is_finite a" and "is_finite b" and "\<bar>val a + val b\<bar> \<le> 2 ^ 1023"
  shows "is_finite (fadd a b) \<and>
     \<bar>val (fadd a b) - (val a + val b)\<bar> \<le> \<bar>val a + val b\<bar> / 2 ^ 53"
proof -
  define U :: real where "U = 2 ^ 1074"
  have U: "0 < U" by (simp add: U_def)
  define n where "n = mag a + mag b"
  have s: "val a + val b = of_int n / U" by (simp add: val_def n_def U_def add_divide_distrib)
  note fa = finite_cases [OF assms(1)] and fb = finite_cases [OF assms(2)]
  show ?thesis
  proof (cases "n = 0")
    case True
    then have "fadd a b = NegZero \<or> fadd a b = Fin 0" using fa fb by (simp add: fadd_def n_def)
    then have "is_finite (fadd a b) \<and> val (fadd a b) = 0" by (auto simp: val_def)
    then show ?thesis by (simp add: s True)
  next
    case False
    have f: "fadd a b = fl (of_int n)" using False fa fb by (simp add: fadd_def n_def)
    have "\<bar>real_of_int n\<bar> = \<bar>val a + val b\<bar> * U" using U by (simp add: s abs_divide)
    also have "\<dots> \<le> 2 ^ 1023 * U" using assms(3) by (rule mult_right_mono) (simp add: U less_imp_le)
    also have "\<dots> = real_of_int (2 ^ 2097)" by (simp add: U_def)
    finally have "real_of_int \<bar>n\<bar> \<le> real_of_int (2 ^ 2097)" by simp
    then have "\<bar>n\<bar> \<le> 2 ^ 2097" by (simp only: of_int_le_iff)
    from fl_int_error [OF this] have fin: "is_finite (fl (of_int n))"
      and e: "\<bar>real_of_int (mag (fl (of_int n))) - of_int n\<bar> \<le> \<bar>of_int n\<bar> / 2 ^ 53"
      by simp_all
    have "val (fadd a b) = real_of_int (mag (fl (of_int n))) / U"
      by (simp add: f val_def U_def)
    then have "val (fadd a b) - (val a + val b) = (real_of_int (mag (fl (of_int n))) - of_int n) / U"
      by (simp only: s diff_divide_distrib)
    then have "\<bar>val (fadd a b) - (val a + val b)\<bar> =
        \<bar>real_of_int (mag (fl (of_int n))) - of_int n\<bar> / U"
      using U by (simp add: abs_divide)
    also have "\<dots> \<le> (\<bar>of_int n\<bar> / 2 ^ 53) / U"
      using e by (rule divide_right_mono) (simp add: U less_imp_le)
    also have "\<dots> = \<bar>of_int n / U\<bar> / 2 ^ 53"
      using U by (simp add: abs_divide)
    finally show ?thesis using fin by (simp add: f s)
  qed
qed

lemma fmul_error:
  assumes "is_finite a" and "is_finite b"
    and "val a * val b = 0 \<or> 1 / 2 ^ 1022 \<le> \<bar>val a * val b\<bar> \<and> \<bar>val a * val b\<bar> \<le> 2 ^ 1023"
  shows "is_finite (fmul a b) \<and>
     \<bar>val (fmul a b) - val a * val b\<bar> \<le> \<bar>val a * val b\<bar> / 2 ^ 53"
proof -
  note fa = finite_cases [OF assms(1)] and fb = finite_cases [OF assms(2)]
  show ?thesis
  proof (cases "is_zero a \<or> is_zero b")
    case True
    then have "fmul a b = NegZero \<or> fmul a b = Fin 0"
      using fa fb by (simp add: fmul_def signed_zero_def)
    then have "is_finite (fmul a b) \<and> val (fmul a b) = 0" by (auto simp: val_def)
    moreover have "val a * val b = 0"
      using True val_zero_iff [OF assms(1)] val_zero_iff [OF assms(2)] by auto
    ultimately show ?thesis by simp
  next
    case False
    then have nz: "val a * val b \<noteq> 0"
      using val_zero_iff [OF assms(1)] val_zero_iff [OF assms(2)] by auto
    define u :: rat where "u = of_int (mag a * mag b) / 2 ^ 1074"
    have f: "fmul a b = fl u" using False fa fb by (simp add: fmul_def u_def)
    have v: "of_rat u / 2 ^ 1074 = val a * val b"
      by (simp add: u_def val_def of_rat_divide of_rat_mult of_rat_power)
    from nz assms(3) have r: "1 / 2 ^ 1022 \<le> \<bar>val a * val b\<bar>" "\<bar>val a * val b\<bar> \<le> 2 ^ 1023"
      by simp_all
    from fl_val_error [OF v r] show ?thesis by (simp only: f)
  qed
qed

lemma fdiv_error_abs:
  assumes "is_finite a" and "is_finite b" and "val b \<noteq> 0" and "\<bar>val a / val b\<bar> \<le> 2 ^ 1023"
  shows "is_finite (fdiv a b) \<and>
     \<bar>val (fdiv a b) - val a / val b\<bar> \<le> \<bar>val a / val b\<bar> / 2 ^ 53 + 1 / 2 ^ 1075"
proof -
  note fa = finite_cases [OF assms(1)] and fb = finite_cases [OF assms(2)]
  have zb: "\<not> is_zero b" using assms(3) val_zero_iff [OF assms(2)] by simp
  show ?thesis
  proof (cases "is_zero a")
    case True
    then have "fdiv a b = NegZero \<or> fdiv a b = Fin 0"
      using fa fb zb by (simp add: fdiv_def signed_zero_def)
    then have "is_finite (fdiv a b) \<and> val (fdiv a b) = 0" by (auto simp: val_def)
    moreover have "val a = 0" using True val_zero_iff [OF assms(1)] by simp
    ultimately show ?thesis by simp
  next
    case False
    define u :: rat where "u = of_int (mag a) / of_int (mag b) * 2 ^ 1074"
    have f: "fdiv a b = fl u" using False fa fb zb by (simp add: fdiv_def u_def)
    have v: "of_rat u / 2 ^ 1074 = val a / val b"
      by (simp add: u_def val_def of_rat_divide of_rat_mult of_rat_power)
    from fl_val_error_abs [OF v assms(4)] show ?thesis by (simp only: f)
  qed
qed

lemma fdiv_error:
  assumes "is_finite a" and "is_finite b" and "val b \<noteq> 0"
    and "val a = 0 \<or> 1 / 2 ^ 1022 \<le> \<bar>val a / val b\<bar> \<and> \<bar>val a / val b\<bar> \<le> 2 ^ 1023"
  shows "is_finite (fdiv a b) \<and>
     \<bar>val (fdiv a b) - val a / val b\<bar> \<le> \<bar>val a / val b\<bar> / 2 ^ 53"
proof -
  note fa = finite_cases [OF assms(1)] and fb = finite_cases [OF assms(2)]
  have zb: "\<not> is_zero b" using assms(3) val_zero_iff [OF assms(2)] by simp
  show ?thesis
  proof (cases "is_zero a")
    case True
    then have "fdiv a b = NegZero \<or> fdiv a b = Fin 0"
      using fa fb zb by (simp add: fdiv_def signed_zero_def)
    then have "is_finite (fdiv a b) \<and> val (fdiv a b) = 0" by (auto simp: val_def)
    moreover have "val a = 0" using True val_zero_iff [OF assms(1)] by simp
    ultimately show ?thesis by simp
  next
    case False
    then have nz: "val a \<noteq> 0" using val_zero_iff [OF assms(1)] by simp
    define u :: rat where "u = of_int (mag a) / of_int (mag b) * 2 ^ 1074"
    have f: "fdiv a b = fl u" using False fa fb zb by (simp add: fdiv_def u_def)
    have v: "of_rat u / 2 ^ 1074 = val a / val b"
      by (simp add: u_def val_def of_rat_divide of_rat_mult of_rat_power)
    from nz assms(4) have r: "1 / 2 ^ 1022 \<le> \<bar>val a / val b\<bar>" "\<bar>val a / val b\<bar> \<le> 2 ^ 1023"
      by simp_all
    from fl_val_error [OF v r] show ?thesis by (simp only: f)
  qed
qed

lemma isqrt_lower:
  assumes "2 ^ 1074 \<le> n"
  shows "2 ^ 537 \<le> isqrt n"
proof (rule ccontr)
  assume "\<not> 2 ^ 537 \<le> isqrt n"
  then have le: "isqrt n + 1 \<le> 2 ^ 537" by simp
  have "(0::int) \<le> 2 ^ 1074" by simp
  from this assms have n0: "0 \<le> n" by (rule order_trans)
  note c = isqrt_correct [OF n0]
  from c have "0 \<le> isqrt n + 1" by simp
  with le have "(isqrt n + 1) * (isqrt n + 1) \<le> 2 ^ 537 * 2 ^ 537"
    by (intro mult_mono) simp_all
  also have "\<dots> = (2::int) ^ 1074" by (simp add: power_add [symmetric])
  finally show False using c assms by linarith
qed

lemma int_half_bounds:
  fixes a g :: int
  assumes "\<bar>rat_of_int a - 1 / 2\<bar> \<le> of_int g"
  shows "a \<le> g \<and> 1 - g \<le> a"
proof -
  from assms have "rat_of_int a \<le> of_int g + 1 / 2" "rat_of_int (1 - g) \<le> of_int a + 1 / 2"
    by (simp_all add: abs_le_iff)
  then have "rat_of_int a < of_int (g + 1)" "rat_of_int (1 - g) < of_int (a + 1)"
    by simp_all
  then have "a < g + 1" "1 - g < a + 1" by (simp_all only: of_int_less_iff)
  then show ?thesis by simp
qed

lemma sqrt_round:
  fixes f n :: int
  assumes "0 \<le> f" and "f * f \<le> n" and "n < (f + 1) * (f + 1)" and "2 ^ 537 \<le> f"
  shows "\<bar>real_of_int (round53 (of_int f + (if f * f = n then 0 else 1 / 2))) - sqrt (of_int n)\<bar>
     \<le> sqrt (of_int n) / 2 ^ 53"
proof -
  define t :: rat where "t = of_int f + (if f * f = n then 0 else 1 / 2)"
  define s where "s = nat (bitlen \<lfloor>t\<rfloor> - 53)"
  define r where "r = round53 t"
  define \<rho> :: real where "\<rho> = sqrt (of_int n)"
  have fl: "\<lfloor>t\<rfloor> = f" by (simp add: t_def floor_eq_iff)
  have "(0::int) < 2 ^ 537" by simp
  with assms(4) have f0: "0 < f" by linarith
  from bitlen_bounds [OF f0] have "f < 2 ^ nat (bitlen f)" by simp
  with assms(4) have "(2::int) ^ 537 < 2 ^ nat (bitlen f)" by linarith
  then have "537 < nat (bitlen f)" by (simp only: power_strict_increasing_iff)
  then have s1: "1 \<le> s" by (simp add: s_def fl)
  then obtain s' where s': "s = Suc s'" by (cases s) simp_all
  define g :: int where "g = 2 ^ s'"
  have tf: "of_int f \<le> t" by (simp add: t_def)
  have "1 \<le> f" using f0 by simp
  then have "(1::rat) \<le> of_int f" by simp
  with tf have t1: "1 \<le> t" by linarith
  have "(2::rat) ^ (52 + s) \<le> t" using t1 s_def by (rule shift_bound) (simp add: s')
  then have "of_int ((2::int) ^ (52 + s)) \<le> t" by simp
  then have "2 ^ (52 + s) \<le> \<lfloor>t\<rfloor>" by (simp only: le_floor_iff)
  then have lo: "2 ^ (52 + s) \<le> f" by (simp only: fl)
  have e: "\<bar>of_int r - t\<bar> \<le> of_int g"
    using round53_error [of t] by (simp add: r_def s_def [symmetric] s' g_def)
  have lb: "real_of_int f \<le> \<rho>"
  proof -
    have "(real_of_int f)\<^sup>2 \<le> of_int n"
      using assms(2) by (metis of_int_le_iff of_int_mult power2_eq_square)
    then show ?thesis unfolding \<rho>_def by (rule real_le_rsqrt)
  qed
  have g0: "0 < g" by (simp add: g_def)
  have main: "\<bar>real_of_int r - \<rho>\<bar> \<le> real_of_int g"
  proof (cases "f * f = n")
    case True
    then have "real_of_int n = (real_of_int f)\<^sup>2"
      by (metis of_int_mult power2_eq_square)
    then have "\<rho> = real_of_int f" using assms(1) by (simp add: \<rho>_def)
    moreover have "t = of_int f" using True by (simp add: t_def)
    ultimately show ?thesis using of_rat_abs_le [OF e] by simp
  next
    case False
    then have t: "t = of_int f + 1 / 2" by (simp add: t_def)
    have "\<bar>rat_of_int (r - f) - 1 / 2\<bar> \<le> of_int g" using e by (simp add: t algebra_simps)
    from int_half_bounds [OF this] have b: "r - f \<le> g" "1 - g \<le> r - f" by simp_all
    from False assms(2) have "f * f < n" by simp
    then have "(real_of_int f)\<^sup>2 < of_int n"
      by (metis of_int_less_iff of_int_mult power2_eq_square)
    then have "sqrt ((real_of_int f)\<^sup>2) < \<rho>" unfolding \<rho>_def by (simp only: real_sqrt_less_iff)
    then have l: "real_of_int f < \<rho>" using assms(1) by simp
    have "real_of_int n < (real_of_int (f + 1))\<^sup>2"
      using assms(3) by (metis of_int_less_iff of_int_mult power2_eq_square)
    then have "\<rho> < sqrt ((real_of_int (f + 1))\<^sup>2)" unfolding \<rho>_def by (simp only: real_sqrt_less_iff)
    then have u: "\<rho> < real_of_int f + 1" using assms(1) by simp
    from b have "real_of_int (r - f) \<le> real_of_int g" "real_of_int (1 - g) \<le> real_of_int (r - f)"
      by (simp_all only: of_int_le_iff)
    then have "real_of_int r - real_of_int f \<le> real_of_int g"
      "1 - real_of_int g \<le> real_of_int r - real_of_int f" by simp_all
    with l u show ?thesis by (simp add: abs_le_iff)
  qed
  have "real_of_int g * 2 ^ 53 = real_of_int (2 ^ (52 + s))" by (simp add: g_def s' power_add)
  also have "\<dots> \<le> real_of_int f" using lo by (simp only: of_int_le_iff)
  also have "\<dots> \<le> \<rho>" by (rule lb)
  finally have "real_of_int g \<le> \<rho> / 2 ^ 53" by (simp add: field_simps)
  with main show ?thesis unfolding r_def t_def \<rho>_def by linarith
qed

lemma fsqrt_error:
  assumes "is_finite x" and "0 < val x" and "val x \<le> 2 ^ 1024"
  shows "is_finite (fsqrt x) \<and> \<bar>val (fsqrt x) - sqrt (val x)\<bar> \<le> sqrt (val x) / 2 ^ 53"
proof -
  define U :: real where "U = 2 ^ 1074"
  have U: "0 < U" by (simp add: U_def)
  obtain k where x: "x = Fin k" and k0: "0 < k"
    using assms(1,2) by (cases x) (simp_all add: val_def zero_less_divide_iff)
  define n where "n = k * 2 ^ 1074"
  define f where "f = isqrt n"
  define t :: rat where "t = of_int f + (if f * f = n then 0 else 1 / 2)"
  have "1 \<le> k" using k0 by simp
  then have "1 * 2 ^ 1074 \<le> k * (2::int) ^ 1074" by (rule mult_right_mono) simp
  then have n1: "2 ^ 1074 \<le> n" by (simp add: n_def)
  have "(0::int) \<le> 2 ^ 1074" by simp
  from this n1 have n0: "0 \<le> n" by (rule order_trans)
  note c = isqrt_correct [OF n0, folded f_def]
  have lo: "2 ^ 537 \<le> f" unfolding f_def using n1 by (rule isqrt_lower)
  have fx: "fsqrt x = fl t" using k0 by (simp add: x Let_def n_def f_def t_def)
  have "real_of_int k = val x * U" by (simp add: x val_def U_def)
  also have "\<dots> \<le> 2 ^ 1024 * U" using assms(3) by (rule mult_right_mono) (simp add: U less_imp_le)
  also have "\<dots> = real_of_int (2 ^ 2098)" by (simp add: U_def)
  finally have kb: "k \<le> 2 ^ 2098" by (simp only: of_int_le_iff)
  have fb: "f \<le> 2 ^ 1586"
  proof (rule ccontr)
    assume "\<not> f \<le> 2 ^ 1586"
    then have "2 ^ 1586 + 1 \<le> f" by simp
    then have "((2::int) ^ 1586 + 1) * (2 ^ 1586 + 1) \<le> f * f" by (intro mult_mono) simp_all
    also have "\<dots> \<le> n" using c by simp
    also have "\<dots> \<le> 2 ^ 2098 * 2 ^ 1074" unfolding n_def using kb by (rule mult_right_mono) simp
    finally show False by simp
  qed
  have "(2::rat) ^ 52 \<le> 2 ^ 537" by (rule power_increasing) simp_all
  also have "\<dots> = of_int (2 ^ 537)" by simp
  also have "\<dots> \<le> of_int f" using lo by (simp only: of_int_le_iff)
  also have "\<dots> \<le> t" by (simp add: t_def)
  finally have t_lo: "2 ^ 52 \<le> t" .
  have "t \<le> of_int f + 1" by (simp add: t_def)
  also have "\<dots> \<le> of_int (2 ^ 1586) + 1" using fb by (simp only: of_int_le_iff add_le_cancel_right)
  also have "\<dots> \<le> 2 ^ 2097" by simp
  finally have t_hi: "t \<le> 2 ^ 2097" .
  from fl_relative [OF t_lo t_hi] obtain j where j: "fl t = Fin j" by blast
  have "0 < t" using t_lo by simp
  with j have jr: "j = round53 t" by (simp add: fl_def Let_def split: if_splits)
  have e: "\<bar>real_of_int (round53 t) - sqrt (of_int n)\<bar> \<le> sqrt (of_int n) / 2 ^ 53"
    unfolding t_def using c lo by (intro sqrt_round) simp_all
  have "real_of_int n = val x * (U * U)" using U by (simp add: n_def x val_def U_def)
  then have "sqrt (real_of_int n) = sqrt (val x) * U"
    using U by (simp add: real_sqrt_mult)
  then have sv: "sqrt (val x) = sqrt (real_of_int n) / U" using U by simp
  have e': "\<bar>real_of_int j - sqrt (of_int n)\<bar> \<le> sqrt (of_int n) / 2 ^ 53"
    using e by (simp only: jr)
  have v1: "val (fsqrt x) = real_of_int j / U" by (simp add: fx j val_def U_def)
  have "val (fsqrt x) - sqrt (val x) = (real_of_int j - sqrt (of_int n)) / U"
    by (simp only: v1 sv diff_divide_distrib)
  then have "\<bar>val (fsqrt x) - sqrt (val x)\<bar> = \<bar>real_of_int j - sqrt (of_int n)\<bar> / U"
    using U by (simp add: abs_divide)
  also have "\<dots> \<le> (sqrt (of_int n) / 2 ^ 53) / U"
    using e' by (rule divide_right_mono) (simp add: U less_imp_le)
  also have "\<dots> = sqrt (val x) / 2 ^ 53" by (simp add: sv)
  finally show ?thesis by (simp add: fx j)
qed
subsection \<open>Accumulated roundings\<close>

text \<open>
  The relation \<open>near\<close> composes: it adds its counts along sums, products, quotients and
  through a chain, and halves them under a square root. A count \<open>m\<close> up to \<^verbatim>\<open>2^52\<close>
  bounds the relative distance by \<^verbatim>\<open>m * 2^-52\<close>.
\<close>

lemma shrink_pos: "0 < shrink"
  by (simp add: shrink_def)

lemma shrink_le_1: "shrink \<le> 1"
  by (simp add: shrink_def)

lemma shrink_power_pos: "0 < shrink ^ m"
  using shrink_pos by simp

lemma shrink_power_le_1: "shrink ^ m \<le> 1"
  using shrink_pos shrink_le_1 by (simp add: power_le_one)

lemma shrink_power_ge: "1 - real m / 2 ^ 53 \<le> shrink ^ m"
  using Bernoulli_inequality [of "- (1 / 2 ^ 53)" m] by (simp add: shrink_def)

lemma shrink_power_half: "m \<le> 2 ^ 52 \<Longrightarrow> 1 / 2 \<le> shrink ^ m"
proof -
  assume "m \<le> 2 ^ 52"
  then have "real m \<le> 2 ^ 52" by (metis of_nat_le_iff of_nat_numeral of_nat_power)
  then have "1 / 2 \<le> 1 - real m / 2 ^ 53" by simp
  with shrink_power_ge [of m] show ?thesis by linarith
qed

lemma near_same: "0 \<le> x \<Longrightarrow> near m x x"
  using shrink_power_le_1 [of m] by (simp add: near_def mult_left_le)

lemma near_sym: "near m x y \<Longrightarrow> near m y x"
  by (simp add: near_def)

lemma near_trans: "near m x y \<Longrightarrow> near k y z \<Longrightarrow> near (m + k) x z"
proof -
  assume a: "near m x y" "near k y z"
  have p: "0 \<le> shrink ^ m" "0 \<le> shrink ^ k" using shrink_pos by simp_all
  have "z * shrink ^ (m + k) = (z * shrink ^ k) * shrink ^ m" by (simp add: power_add)
  also have "\<dots> \<le> y * shrink ^ m" using a(2) p by (simp add: near_def mult_right_mono)
  also have "\<dots> \<le> x" using a(1) by (simp add: near_def)
  finally have 1: "z * shrink ^ (m + k) \<le> x" .
  have "x * shrink ^ (m + k) = (x * shrink ^ m) * shrink ^ k" by (simp add: power_add)
  also have "\<dots> \<le> y * shrink ^ k" using a(1) p by (simp add: near_def mult_right_mono)
  also have "\<dots> \<le> z" using a(2) by (simp add: near_def)
  finally have 2: "x * shrink ^ (m + k) \<le> z" .
  from 1 2 show ?thesis by (simp add: near_def)
qed

lemma near_mono:
  assumes "near m x y" and "m \<le> k" and "0 \<le> x" and "0 \<le> y"
  shows "near k x y"
proof -
  from assms(2) obtain d where k: "k = m + d" using le_Suc_ex by blast
  have "near d y y" using assms(4) by (rule near_same)
  with assms(1) show ?thesis unfolding k by (rule near_trans)
qed

lemma near_nonneg: "near m x y \<Longrightarrow> 0 \<le> y \<Longrightarrow> 0 \<le> x"
proof -
  assume a: "near m x y" "0 \<le> y"
  have "0 \<le> y * shrink ^ m" using a(2) shrink_power_pos [of m] by simp
  with a(1) show ?thesis by (simp add: near_def)
qed

lemma near_pos: "near m x y \<Longrightarrow> 0 < y \<Longrightarrow> 0 < x"
proof -
  assume a: "near m x y" "0 < y"
  have "0 < y * shrink ^ m" using a(2) shrink_power_pos [of m] by simp
  with a(1) show ?thesis by (simp add: near_def)
qed

lemma near_zero: "near m x 0 \<Longrightarrow> x = 0"
proof -
  assume a: "near m x 0"
  then have "0 \<le> x" "x * shrink ^ m \<le> 0" by (simp_all add: near_def)
  then show ?thesis using shrink_power_pos [of m] by (simp add: mult_le_0_iff)
qed

lemma near_add: "near m x y \<Longrightarrow> near m x' y' \<Longrightarrow> near m (x + x') (y + y')"
  by (simp add: near_def distrib_right)

lemma near_mult:
  assumes "near m x y" and "near k x' y'" and "0 \<le> y" and "0 \<le> y'"
  shows "near (m + k) (x * x') (y * y')"
proof -
  have x: "0 \<le> x" "0 \<le> x'" using assms near_nonneg by blast+
  have p: "0 \<le> shrink ^ m" "0 \<le> shrink ^ k" using shrink_pos by simp_all
  have "(y * shrink ^ m) * (y' * shrink ^ k) \<le> x * x'"
    using assms p by (intro mult_mono) (simp_all add: near_def x)
  moreover have "(x * shrink ^ m) * (x' * shrink ^ k) \<le> y * y'"
    using assms p x by (intro mult_mono) (simp_all add: near_def)
  ultimately show ?thesis by (simp add: near_def power_add mult_ac)
qed

lemma near_divide:
  assumes "near m x y" and "near k x' y'" and "0 \<le> y" and "0 < y'"
  shows "near (m + k) (x / x') (y / y')"
proof -
  have x: "0 \<le> x" "0 < x'" using assms near_nonneg near_pos by blast+
  have p: "0 \<le> shrink ^ m" "0 \<le> shrink ^ k" using shrink_pos by simp_all
  have "(y * shrink ^ m) * (x' * shrink ^ k) \<le> x * y'"
    using assms p x by (intro mult_mono) (simp_all add: near_def)
  then have 1: "(y / y') * shrink ^ (m + k) \<le> x / x'"
    using x(2) assms(4) by (simp add: field_simps power_add)
  have "(x * shrink ^ m) * (y' * shrink ^ k) \<le> y * x'"
    using assms p x by (intro mult_mono) (simp_all add: near_def)
  then have 2: "(x / x') * shrink ^ (m + k) \<le> y / y'"
    using x(2) assms(4) by (simp add: field_simps power_add)
  from 1 2 show ?thesis by (simp add: near_def)
qed

lemma near_sqrt:
  assumes "near (2 * m) x y" and "0 \<le> y"
  shows "near m (sqrt x) (sqrt y)"
proof -
  have x: "0 \<le> x" using assms near_nonneg by blast
  have e: "shrink ^ (2 * m) = (shrink ^ m)\<^sup>2" by (simp add: power_mult power2_eq_square power_mult_distrib mult.commute)
  have s: "sqrt (shrink ^ (2 * m)) = shrink ^ m"
    unfolding e using shrink_power_pos [of m] by simp
  from assms(1) have "sqrt (y * shrink ^ (2 * m)) \<le> sqrt x" "sqrt (x * shrink ^ (2 * m)) \<le> sqrt y"
    by (simp_all only: near_def real_sqrt_le_iff)
  then show ?thesis by (simp add: near_def real_sqrt_mult s)
qed

lemma near_square:
  assumes "near m x y" and "0 \<le> y"
  shows "near (2 * m) (x\<^sup>2) (y\<^sup>2)"
  using near_mult [OF assms(1) assms(1) assms(2) assms(2)]
  by (simp add: power2_eq_square mult_2)

lemma near_round:
  assumes "\<bar>r - v\<bar> \<le> v / 2 ^ 53" and "0 \<le> v"
  shows "near 1 r v"
proof -
  from assms(1) have a: "v - v / 2 ^ 53 \<le> r" "r \<le> v + v / 2 ^ 53" by linarith+
  have e1: "v * shrink = v - v / 2 ^ 53" by (simp add: shrink_def algebra_simps)
  from a(1) have 1: "v * shrink \<le> r" unfolding e1 .
  have e2: "v * (1 + 1 / 2 ^ 53) = v + v / 2 ^ 53" by (simp add: algebra_simps)
  from a(2) have "r \<le> v * (1 + 1 / 2 ^ 53)" unfolding e2 .
  then have "r * shrink \<le> v * (1 + 1 / 2 ^ 53) * shrink"
    using shrink_pos by (simp add: mult_right_mono)
  also have "\<dots> = v * (1 - (1 / 2 ^ 53)\<^sup>2)"
    by (simp add: shrink_def algebra_simps power2_eq_square)
  also have "\<dots> \<le> v" using assms(2) by (simp add: mult_left_le)
  finally show ?thesis using 1 by (simp add: near_def)
qed

lemma near_tolerance:
  assumes "near m x y" and "0 \<le> y" and "m \<le> 2 ^ 52"
  shows "\<bar>x - y\<bar> \<le> real m / 2 ^ 52 * y"
proof -
  define w where "w = real m / 2 ^ 53"
  have "real m \<le> 2 ^ 52" using assms(3) by (metis of_nat_le_iff of_nat_numeral of_nat_power)
  then have w: "0 \<le> w" "w \<le> 1 / 2" by (simp_all add: w_def)
  have g: "1 - w \<le> shrink ^ m" unfolding w_def by (rule shrink_power_ge)
  have x0: "0 \<le> x" using assms(1,2) by (rule near_nonneg)
  have "y * (1 - w) \<le> y * shrink ^ m" using g assms(2) by (rule mult_left_mono)
  also have "\<dots> \<le> x" using assms(1) by (simp add: near_def)
  finally have lo: "y - x \<le> w * y" by (simp add: algebra_simps)
  have "x * (1 - w) \<le> x * shrink ^ m" using g x0 by (rule mult_left_mono)
  also have "\<dots> \<le> y" using assms(1) by (simp add: near_def)
  finally have "x * (1 - w) \<le> y" .
  then have "x * (1 - w) * (1 + 2 * w) \<le> y * (1 + 2 * w)"
    using w by (intro mult_right_mono) simp_all
  moreover have "x \<le> x * ((1 - w) * (1 + 2 * w))"
  proof -
    have "w * (1 - 2 * w) \<ge> 0" using w by simp
    then have "1 \<le> (1 - w) * (1 + 2 * w)" by (simp add: algebra_simps)
    with x0 show ?thesis by (simp add: mult_le_cancel_left1)
  qed
  ultimately have "x \<le> y * (1 + 2 * w)" by (simp add: mult.assoc)
  then have hi: "x - y \<le> 2 * w * y" by (simp add: algebra_simps)
  have "w * y \<le> 2 * w * y" using w assms(2) by simp
  with lo hi have "\<bar>x - y\<bar> \<le> 2 * w * y" by (simp add: abs_le_iff)
  then show ?thesis by (simp add: w_def)
qed

lemma near_sum_list:
  assumes "\<And>x. x \<in> set xs \<Longrightarrow> near m (f x) (g x)"
  shows "near m (sum_list (map f xs)) (sum_list (map g xs))"
  using assms
proof (induction xs)
  case Nil
  show ?case by (simp add: near_def)
next
  case (Cons a xs)
  then show ?case by (simp add: near_add)
qed

lemma near_le_double:
  assumes "near m x y" and "0 \<le> y" and "m \<le> 2 ^ 52"
  shows "x \<le> 2 * y"
proof -
  have x0: "0 \<le> x" using assms(1,2) by (rule near_nonneg)
  have "x * (1 / 2) \<le> x * shrink ^ m"
    using shrink_power_half [OF assms(3)] x0 by (rule mult_left_mono)
  also have "\<dots> \<le> y" using assms(1) by (simp add: near_def)
  finally show ?thesis by simp
qed

lemma near_ge_half:
  assumes "near m x y" and "0 \<le> y" and "m \<le> 2 ^ 52"
  shows "y \<le> 2 * x"
  using near_le_double [OF near_sym [OF assms(1)] near_nonneg [OF assms(1,2)] assms(3)] .

lemma grow_ge_1: "1 \<le> grow"
  by (simp add: grow_def)

lemma grow_shrink: "grow * shrink \<le> 1"
  by (simp add: grow_def shrink_def algebra_simps)

lemma grow_power_shrink: "grow ^ m * shrink ^ m \<le> 1"
proof -
  have "0 \<le> grow * shrink" using grow_ge_1 shrink_pos by simp
  then have "(grow * shrink) ^ m \<le> 1" using grow_shrink by (rule power_le_one)
  then show ?thesis by (simp add: power_mult_distrib)
qed

lemma grow_power_ge_1: "1 \<le> grow ^ m"
  using grow_ge_1 by (rule one_le_power)

lemma grow_power_near: "near m (grow ^ m) 1"
proof -
  have "shrink ^ m \<le> 1" by (rule shrink_power_le_1)
  also have "\<dots> \<le> grow ^ m" by (rule grow_power_ge_1)
  finally show ?thesis using grow_power_shrink [of m] by (simp add: near_def)
qed

lemma grow_power_bound:
  assumes "m \<le> 2 ^ 52"
  shows "grow ^ m - 1 \<le> real m / 2 ^ 52"
proof -
  have "\<bar>grow ^ m - 1\<bar> \<le> real m / 2 ^ 52 * 1"
    using grow_power_near _ assms by (rule near_tolerance) simp
  then show ?thesis by linarith
qed

lemma grow_power_le_2:
  assumes "m \<le> 2 ^ 52"
  shows "grow ^ m \<le> 2"
proof -
  have "grow ^ m \<le> 2 * 1" using grow_power_near _ assms by (rule near_le_double) simp
  then show ?thesis by simp
qed

section \<open>Properties of the embedder singleton\<close>

lemma initializeEmbedder_Some:
  "embedder s = Some h \<Longrightarrow> initializeEmbedder B name s = (Inr h, s)"
  by (simp add: initializeEmbedder_def)

lemma call_embedder_keeps:
  "embedder (snd (call_embedder B input opts s)) = embedder s"
  by (simp add: call_embedder_def split: option.splits prod.splits sum.splits)

lemma vectorize_keeps:
  "embedder s = Some h \<Longrightarrow> embedder (snd (vectorize B text opts s)) = Some h"
  using call_embedder_keeps [of B "Text text" opts s]
  by (auto simp: vectorize_def initializeEmbedder_Some split: prod.splits sum.splits)

lemma vectorizeBatch_keeps:
  "embedder s = Some h \<Longrightarrow> embedder (snd (vectorizeBatch B ts opts s)) = Some h"
  using call_embedder_keeps [of B "Texts ts" opts s]
  by (simp add: vectorizeBatch_def initializeEmbedder_Some)

lemma serve_keeps:
  "embedder s = Some h \<Longrightarrow> embedder (serve B r s) = Some h"
  by (cases r) (simp_all add: initializeEmbedder_Some vectorize_keeps vectorizeBatch_keeps)

lemma serve_all_keeps:
  "embedder s = Some h \<Longrightarrow> embedder (serve_all B rs s) = Some h"
  by (induction rs arbitrary: s) (simp_all add: serve_keeps)

lemma resume_twice:
  "resume B (fst (resume B (Called name) s)) (snd (resume B (Called name) s)) =
     (case initializeEmbedder B name s of
        (Inl e, s') \<Rightarrow> (Threw e, s') | (Inr h, s') \<Rightarrow> (Returned h, s'))"
  by (simp add: initializeEmbedder_def split: option.splits prod.splits sum.splits)

lemma resume_keeps:
  assumes "embedder s = Some h" and "\<not> awaiting c"
  shows "resume B c s = (case c of Called name \<Rightarrow> Returned h | _ \<Rightarrow> c, s)"
  using assms by (cases c) simp_all

lemma run_call_keeps:
  assumes "embedder s = Some h" and "list_all (\<lambda>c. \<not> awaiting c) cs"
  shows "snd (run_call B (cs, s) i) = s \<and> list_all (\<lambda>c. \<not> awaiting c) (fst (run_call B (cs, s) i))"
proof (cases "i < length cs")
  case True
  with assms(2) have n: "\<not> awaiting (cs ! i)" by (simp add: list_all_length)
  have "\<not> awaiting (case cs ! i of Called name \<Rightarrow> Returned h | _ \<Rightarrow> cs ! i)"
    using n by (cases "cs ! i") simp_all
  with assms(2) True have "list_all (\<lambda>c. \<not> awaiting c)
      (cs[i := case cs ! i of Called name \<Rightarrow> Returned h | _ \<Rightarrow> cs ! i])"
    by (auto simp: list_all_length nth_list_update)
  with True show ?thesis
    by (simp add: run_call_def resume_keeps [OF assms(1) n])
next
  case False
  with assms show ?thesis by (simp add: run_call_def)
qed

lemma run_schedule_keeps:
  assumes "embedder s = Some h" and "list_all (\<lambda>c. \<not> awaiting c) cs"
  shows "snd (run_schedule B sched (cs, s)) = s"
  using assms(2)
proof (induction sched arbitrary: cs)
  case Nil
  then show ?case by (simp add: run_schedule_def)
next
  case (Cons i sched)
  obtain cs' where c: "run_call B (cs, s) i = (cs', s)" "list_all (\<lambda>c. \<not> awaiting c) cs'"
    using run_call_keeps [OF assms(1) Cons.prems, of B i]
    by (cases "run_call B (cs, s) i") simp
  from Cons.IH [OF c(2)] c(1) show ?case by (simp add: run_schedule_def)
qed

text \<open>
  With no call suspended at its \<^verbatim>\<open>await\<close>, a handle \<open>h\<close> in the module variable stays:
  \<^verbatim>\<open>initializeEmbedder\<close> returns \<open>h\<close> whatever model name it is given and touches
  neither the variable nor the backend, \<^verbatim>\<open>vectorize\<close> and \<^verbatim>\<open>vectorizeBatch\<close> leave \<open>h\<close>
  in place, and so does any sequence of requests served one after the other, and any
  schedule of calls of which none is suspended. In every state \<^verbatim>\<open>getModelInfo\<close> reports
  \<^verbatim>\<open>isInitialized\<close> exactly when the variable holds a handle.
\<close>

lemma handle_kept_without_overlap:
  "embedder s = Some h \<Longrightarrow>
     initializeEmbedder B name s = (Inr h, s) \<and>
     embedder (snd (vectorize B text opts s)) = Some h \<and>
     embedder (snd (vectorizeBatch B ts opts s)) = Some h \<and>
     embedder (serve_all B rs s) = Some h \<and>
     initializeEmbedder B name (serve_all B rs s) = (Inr h, serve_all B rs s) \<and>
     (list_all (\<lambda>c. \<not> awaiting c) cs \<longrightarrow> snd (run_schedule B sched (cs, s)) = s) \<and>
     (isInitialized (getModelInfo t) \<longleftrightarrow> (\<exists>h'. embedder t = Some h'))"
  by (simp add: initializeEmbedder_Some vectorize_keeps vectorizeBatch_keeps serve_all_keeps
      run_schedule_keeps getModelInfo_def)

lemma handle_kept_example:
  "initializeEmbedder logging_backend ''B'' \<lparr>embedder = Some (''A'', 0), world = [''A'']\<rparr>
     = (Inr (''A'', 0), \<lparr>embedder = Some (''A'', 0), world = [''A'']\<rparr>) \<and>
   embedder (serve_all logging_backend
       [Initialize ''B'', Vectorize ''hello'' \<lparr>modelName = Some ''C'', pooling = None, normalize = None\<rparr>,
        ModelInfo, VectorizeBatch [''x'', ''y''] \<lparr>modelName = None, pooling = Some Cls, normalize = Some False\<rparr>]
       \<lparr>embedder = Some (''A'', 0), world = [''A'']\<rparr>) = Some (''A'', 0) \<and>
   run_schedule logging_backend [1, 0]
       ([Called ''B'', Called ''C''], \<lparr>embedder = Some (''A'', 0), world = [''A'']\<rparr>)
     = ([Returned (''A'', 0), Returned (''A'', 0)],
        \<lparr>embedder = Some (''A'', 0), world = [''A'']\<rparr>) \<and>
   isInitialized (getModelInfo \<lparr>embedder = Some (''A'', 0::nat), world = [''A'']\<rparr>) \<and>
   \<not> isInitialized (getModelInfo \<lparr>embedder = (None :: (string \<times> nat) option), world = ([] :: string list)\<rparr>)"
  using handle_kept_without_overlap [of "\<lparr>embedder = Some (''A'', 0::nat), world = [''A'']\<rparr>" "(''A'', 0)"
      logging_backend "''B''" "''hello''" "\<lparr>modelName = None, pooling = None, normalize = None\<rparr>" "[]"
      "[Initialize ''B'', Vectorize ''hello'' \<lparr>modelName = Some ''C'', pooling = None, normalize = None\<rparr>,
        ModelInfo, VectorizeBatch [''x'', ''y''] \<lparr>modelName = None, pooling = Some Cls, normalize = Some False\<rparr>]"
      "[Called ''B'', Called ''C'']" "[1, 0]"
      "\<lparr>embedder = Some (''A'', 0::nat), world = [''A'']\<rparr>"]
  by (simp add: getModelInfo_def initializeEmbedder_def run_schedule_def run_call_def)

text \<open>
  Claim C2. A handle that has been created can be replaced. The calls A and B of
  \<^verbatim>\<open>initializeEmbedder\<close> are made while the variable is \<^verbatim>\<open>null\<close>, and A's load settles
  first: the handle of A is stored, \<^verbatim>\<open>getModelInfo\<close> reports \<^verbatim>\<open>isInitialized = true\<close>,
  and B is still suspended at its \<^verbatim>\<open>await\<close>. A call C made now returns the handle of
  A. Then B's load settles and B assigns its own handle to the variable: the created
  handle is replaced, the backend has loaded a second model, and a call D made
  afterwards returns the handle of B. The two calls C and D, both made after a handle
  existed, return different handles.
\<close>

theorem created_handle_replaced:
  "run_schedule logging_backend [0, 1, 0]
       ([Called ''A'', Called ''B'', Called ''C'', Called ''D''],
        \<lparr>embedder = None, world = []\<rparr>)
     = ([Returned (''A'', 0), Awaiting ''B'', Called ''C'', Called ''D''],
        \<lparr>embedder = Some (''A'', 0), world = [''A'']\<rparr>) \<and>
   isInitialized (getModelInfo \<lparr>embedder = Some (''A'', 0::nat), world = [''A'']\<rparr>) \<and>
   run_schedule logging_backend [2]
       ([Returned (''A'', 0), Awaiting ''B'', Called ''C'', Called ''D''],
        \<lparr>embedder = Some (''A'', 0), world = [''A'']\<rparr>)
     = ([Returned (''A'', 0), Awaiting ''B'', Returned (''A'', 0), Called ''D''],
        \<lparr>embedder = Some (''A'', 0), world = [''A'']\<rparr>) \<and>
   run_schedule logging_backend [1]
       ([Returned (''A'', 0), Awaiting ''B'', Returned (''A'', 0), Called ''D''],
        \<lparr>embedder = Some (''A'', 0), world = [''A'']\<rparr>)
     = ([Returned (''A'', 0), Returned (''B'', 1), Returned (''A'', 0), Called ''D''],
        \<lparr>embedder = Some (''B'', 1), world = [''A'', ''B'']\<rparr>) \<and>
   run_schedule logging_backend [3]
       ([Returned (''A'', 0), Returned (''B'', 1), Returned (''A'', 0), Called ''D''],
        \<lparr>embedder = Some (''B'', 1), world = [''A'', ''B'']\<rparr>)
     = ([Returned (''A'', 0), Returned (''B'', 1), Returned (''A'', 0), Returned (''B'', 1)],
        \<lparr>embedder = Some (''B'', 1), world = [''A'', ''B'']\<rparr>) \<and>
   run_schedule logging_backend [0, 1, 0, 2, 1, 3]
       ([Called ''A'', Called ''B'', Called ''C'', Called ''D''],
        \<lparr>embedder = None, world = []\<rparr>)
     = ([Returned (''A'', 0), Returned (''B'', 1), Returned (''A'', 0), Returned (''B'', 1)],
        \<lparr>embedder = Some (''B'', 1), world = [''A'', ''B'']\<rparr>)"
  by (simp add: run_schedule_def run_call_def logging_backend_def getModelInfo_def)



text \<open>
  Claim C4. Two calls of \<^verbatim>\<open>initializeEmbedder\<close>, for the models A and B, made one after
  the other before the first load has settled: each finds the variable \<^verbatim>\<open>null\<close> and
  asks the backend for its own model. The backend loads both models, the two calls
  return different handles, and the handle stored first is replaced by the second.
\<close>

theorem concurrent_initialization_creates_two:
  "run_schedule logging_backend [0, 1, 0, 1]
       ([Called ''A'', Called ''B''], \<lparr>embedder = None, world = []\<rparr>)
     = ([Returned (''A'', 0), Returned (''B'', 1)],
        \<lparr>embedder = Some (''B'', 1), world = [''A'', ''B'']\<rparr>)"
  by (simp add: run_schedule_def run_call_def logging_backend_def)

section \<open>Properties of the vector operations\<close>

lemma elem_at_nth: "i < length v \<Longrightarrow> elem_at v i = v ! i"
  by (simp add: elem_at_def)

lemma cosine_loop_eq:
  "length a = length b \<Longrightarrow>
   cosine_loop a b i (d, na, nb) =
     (foldl fadd d (map2 fmul (drop i a) (drop i b)),
      foldl fadd na (map (\<lambda>x. fmul x x) (drop i a)),
      foldl fadd nb (map (\<lambda>x. fmul x x) (drop i b)))"
proof (induction a b i "(d, na, nb)" arbitrary: d na nb rule: cosine_loop.induct)
  case (1 a b i d na nb)
  show ?case
  proof (cases "i < length a")
    case True
    with "1.prems" have ib: "i < length b" by simp
    have da: "drop i a = a ! i # drop (Suc i) a" using True by (simp add: Cons_nth_drop_Suc)
    have db: "drop i b = b ! i # drop (Suc i) b" using ib by (simp add: Cons_nth_drop_Suc)
    show ?thesis
      using "1.hyps" [OF True "1.prems"] True ib
      by (simp add: cosine_loop.simps [of a b i] da db elem_at_nth)
  next
    case False
    with "1.prems" show ?thesis by (simp add: cosine_loop.simps [of a b i])
  qed
qed

lemma feq_fsqrt_zero: "feq (fsqrt x) (Fin 0) \<longleftrightarrow> feq x (Fin 0)"
  by (simp add: feq_zero fsqrt_zero_iff)







lemma is_finite_fneg: "is_finite (fneg y) = is_finite y"
  by (cases y) simp_all






lemma fmul_fneg: "fmul (fneg d) (fneg d) = fmul d d"
  by (cases d) (simp_all add: fmul_def signed_zero_def signed_inf_def)








lemma is_double_min_value: "is_double min_value"
  using bitlen_power2 [of 0] by (simp add: min_value_def)


lemma fmul_min_value: "fmul min_value min_value = Fin 0"
  unfolding min_value_def using fmul_power2_underflow [of 0 0] by simp



lemma fsub_one_zero: "fsub one (Fin 0) = one"
  unfolding one_def by (rule fsub_power2_zero) simp

lemma fsub_zero_zero: "fsub (Fin 0) (Fin 0) = Fin 0"
  by (simp add: fsub_def fadd_def)

lemma fsub_zero_one: "fsub (Fin 0) one = fneg one"
  unfolding one_def using fsub_zero_power2 [of 1074] by (simp del: power_numeral)

lemma fmul_fneg_one: "fmul (fneg one) (fneg one) = one"
  by (simp add: fmul_fneg fmul_one_one)

lemma is_finite_one: "is_finite one"
  by (simp add: one_def)



lemma sum_squares_foldl:
  "foldl (\<lambda>sum val. fadd sum (fmul val val)) s v = foldl fadd s (map (\<lambda>x. fmul x x) v)"
  by (simp add: foldl_map)

lemma is_double_two_600: "is_double two_600"
  unfolding two_600_def by (rule is_double_power2) simp

lemma fmul_two_600: "fmul two_600 two_600 = PosInf"
  unfolding two_600_def by (rule fmul_power2_overflow [where c = 2274]) simp_all

lemma fadd_zero_PosInf: "fadd (Fin 0) PosInf = PosInf"
  by (simp add: fadd_def)

lemma fdiv_two_600_PosInf: "fdiv two_600 PosInf = Fin 0"
  by (simp add: fdiv_def two_600_def signed_zero_def del: power_numeral)

lemma feq_PosInf_zero: "\<not> feq PosInf (Fin 0)"
  by (simp add: feq_def)

lemma feq_zero_one: "\<not> feq (Fin 0) one"
  by (simp add: feq_def one_def del: power_numeral)

lemma cosineSimilarity_Inr:
  "length v = length q \<Longrightarrow> \<exists>s. cosineSimilarity q v = Inr s"
  by (simp add: cosineSimilarity_def split: prod.splits)

lemma cosineSimilarity_Inl:
  "length v \<noteq> length q \<Longrightarrow>
     cosineSimilarity q v = Inl (Error ''Vectors must have the same length'')"
  by (auto simp: cosineSimilarity_def)

lemma similarities_length:
  "similarities q vs i = Inr sims \<Longrightarrow> length sims = length vs"
  by (induction vs arbitrary: i sims) (auto split: sum.splits)

lemma similarities_Inr:
  "list_all (\<lambda>v. length v = length q) vs \<Longrightarrow> \<exists>sims. similarities q vs i = Inr sims"
proof (induction vs arbitrary: i)
  case Nil
  then show ?case by simp
next
  case (Cons v vs)
  then obtain s where "cosineSimilarity q v = Inr s" using cosineSimilarity_Inr [of v q] by auto
  moreover from Cons obtain rest where "similarities q vs (Suc i) = Inr rest" by fastforce
  ultimately show ?case by simp
qed

lemma similarities_Inl:
  "\<not> list_all (\<lambda>v. length v = length q) vs \<Longrightarrow>
     similarities q vs i = Inl (Error ''Vectors must have the same length'')"
proof (induction vs arbitrary: i)
  case Nil
  then show ?case by simp
next
  case (Cons v vs)
  show ?case
  proof (cases "length v = length q")
    case True
    then obtain s where "cosineSimilarity q v = Inr s" using cosineSimilarity_Inr by blast
    moreover from True Cons have "similarities q vs (Suc i) = Inl (Error ''Vectors must have the same length'')"
      by simp
    ultimately show ?thesis by simp
  next
    case False
    then show ?thesis by (simp add: cosineSimilarity_Inl)
  qed
qed

lemma length_sort_insert: "length (sort_insert c x ys) = Suc (length ys)"
  by (induction ys) simp_all

lemma length_array_sort: "length (array_sort c xs) = length xs"
  by (induction xs) (simp_all add: length_sort_insert)

lemma length_slice0:
  "length (slice0 xs e) =
     (if e < 0 then nat (int (length xs) + e) else min (nat e) (length xs))"
  by (auto simp: slice0_def Let_def)

lemma findSimilar_length:
  assumes "list_all (\<lambda>v. length v = length q) vs"
  shows "\<exists>res. findSimilar q vs k = Inr res \<and>
           length res = (if k < 0 then nat (int (length vs) + k) else min (nat k) (length vs))"
proof -
  from similarities_Inr [OF assms] obtain sims where s: "similarities q vs 0 = Inr sims" by blast
  then have "length sims = length vs" by (rule similarities_length)
  with s show ?thesis by (simp add: findSimilar_def length_slice0 length_array_sort)
qed

lemma findSimilar_mismatch:
  "\<not> list_all (\<lambda>v. length v = length q) vs \<Longrightarrow>
     findSimilar q vs k = Inl (Error ''Vectors must have the same length'')"
  by (simp add: findSimilar_def similarities_Inl)

lemma fneg_one: "fneg one = Fin (- (2 ^ 1074))"
  by (simp add: one_def del: power_numeral)

lemma not_fless_zero_fneg_one: "\<not> fless (Fin 0) (fneg one)"
  by (simp add: fneg_one fless_def del: power_numeral)

lemma cosine_unit_same: "cosineSimilarity [one, Fin 0] [one, Fin 0] = Inr one"
  by (simp add: cosineSimilarity_def cosine_loop.simps elem_at_def one_arith)

lemma cosine_unit_orthogonal: "cosineSimilarity [one, Fin 0] [Fin 0, one] = Inr (Fin 0)"
  by (simp add: cosineSimilarity_def cosine_loop.simps elem_at_def one_arith)

text \<open>
  Claim C1. With a negative \<^verbatim>\<open>topK\<close> the call \<^verbatim>\<open>slice(0, topK)\<close> counts from the end of
  the sorted array: for two candidates and \<^verbatim>\<open>topK = -1\<close> the result holds one entry, the
  best match, where the claim asks for the empty sequence. (For \<^verbatim>\<open>topK \<ge> 0\<close> the number
  of results is the smaller of \<^verbatim>\<open>topK\<close> and the number of candidates, by
  \<open>findSimilar_length\<close>.)
\<close>

theorem findSimilar_negative_topK:
  "findSimilar [one, Fin 0] [[one, Fin 0], [Fin 0, one]] (- 1)
     = Inr [\<lparr>index = 0, similarity = one\<rparr>]"
  by (simp add: findSimilar_def cosine_unit_same cosine_unit_orthogonal fsub_zero_one
      not_fless_zero_fneg_one slice0_def)

lemma positive_fless: "positive y \<Longrightarrow> fless (Fin 0) y"
  by (cases y) (simp_all add: fless_def)

lemma positive_fneg_not_fless: "positive y \<Longrightarrow> \<not> fless (Fin 0) (fneg y)"
  by (cases y) (simp_all add: fless_def)

lemma fadd_sign:
  assumes "is_finite p" and "is_finite q"
  shows "fless (Fin 0) (fadd p q) \<longleftrightarrow> 0 < mag p + mag q"
proof -
  define d where "d = mag p + mag q"
  have np: "\<not> is_nan p" "\<not> is_inf p" "\<not> is_nan q" "\<not> is_inf q"
    using assms by (cases p; cases q; simp)+
  consider "d = 0" | "0 < d" | "d < 0" by linarith
  then show ?thesis
  proof cases
    case 1
    then show ?thesis using np by (simp add: fadd_def d_def fless_def)
  next
    case 2
    then have "1 \<le> rat_of_int d" by simp
    then have "positive (fl (rat_of_int d))" by (rule fl_positive)
    then have "fless (Fin 0) (fl (rat_of_int d))" by (rule positive_fless)
    with 2 np show ?thesis by (simp add: fadd_def d_def)
  next
    case 3
    then have "1 \<le> rat_of_int (- d)" by simp
    then have "positive (fl (rat_of_int (- d)))" by (rule fl_positive)
    then have "\<not> fless (Fin 0) (fneg (fl (rat_of_int (- d))))" by (rule positive_fneg_not_fless)
    moreover have "fl (rat_of_int d) = fneg (fl (rat_of_int (- d)))"
      using fl_neg [of "rat_of_int (- d)"] 3 by simp
    ultimately show ?thesis using 3 np by (simp add: fadd_def d_def)
  qed
qed

lemma mag_fneg: "mag (fneg x) = - mag x"
  by (cases x) simp_all

lemma comparator_sign:
  assumes "\<not> is_nan a" and "\<not> is_nan b"
  shows "fless (Fin 0) (fsub b a) \<longleftrightarrow> fless a b"
proof (cases "is_finite a \<and> is_finite b")
  case True
  then have "fless (Fin 0) (fadd b (fneg a)) \<longleftrightarrow> 0 < mag b + mag (fneg a)"
    by (intro fadd_sign) (simp_all add: is_finite_fneg)
  moreover have "rank a = 0" "rank b = 0" using True by (cases a; cases b; simp)+
  ultimately show ?thesis using assms by (simp add: fsub_def mag_fneg fless_def)
next
  case False
  with assms show ?thesis
    by (cases a; cases b) (simp_all add: fsub_def fadd_def fless_def)
qed

lemma fless_or_ge:
  "\<not> is_nan a \<Longrightarrow> \<not> is_nan b \<Longrightarrow> \<not> fless a b \<Longrightarrow> fless b a \<or> feq a b"
  by (auto simp: fless_def feq_def)

lemma fless_trans: "fless a b \<Longrightarrow> fless b c \<Longrightarrow> fless a c"
  by (auto simp: fless_def)

lemma fless_feq_trans: "fless a b \<Longrightarrow> feq b c \<Longrightarrow> fless a c"
  by (auto simp: fless_def feq_def)

lemma feq_fless_trans: "feq a b \<Longrightarrow> fless b c \<Longrightarrow> fless a c"
  by (auto simp: fless_def feq_def)

lemma feq_trans: "feq a b \<Longrightarrow> feq b c \<Longrightarrow> feq a c"
  by (auto simp: feq_def)

lemma set_sort_insert: "set (sort_insert c x ys) = insert x (set ys)"
  by (induction ys) auto

lemma set_array_sort: "set (array_sort c xs) = set xs"
  by (induction xs) (simp_all add: set_sort_insert)

lemma feq_sym: "feq a b \<Longrightarrow> feq b a"
  by (auto simp: feq_def)

lemma ranked_before_first:
  assumes "ranked_before y z" and "\<not> fless (similarity x) (similarity y)"
    and "\<not> is_nan (similarity x)" and "\<not> is_nan (similarity y)"
    and "index x < index y" and "index x < index z"
  shows "ranked_before x z"
proof -
  from fless_or_ge [OF assms(3,4,2)]
  have d: "fless (similarity y) (similarity x) \<or> feq (similarity x) (similarity y)" .
  from assms(1) consider
    (less) "fless (similarity z) (similarity y)"
    | (tie) "feq (similarity y) (similarity z)"
    by (auto simp: ranked_before_def)
  then show ?thesis
  proof cases
    case less
    from d have "fless (similarity z) (similarity x)"
    proof
      assume "fless (similarity y) (similarity x)"
      with less show ?thesis by (rule fless_trans)
    next
      assume "feq (similarity x) (similarity y)"
      then have "feq (similarity y) (similarity x)" by (rule feq_sym)
      with less show ?thesis by (rule fless_feq_trans)
    qed
    then show ?thesis by (simp add: ranked_before_def)
  next
    case tie
    from d show ?thesis
    proof
      assume "fless (similarity y) (similarity x)"
      with feq_sym [OF tie] have "fless (similarity z) (similarity x)"
        by (rule feq_fless_trans)
      then show ?thesis by (simp add: ranked_before_def)
    next
      assume "feq (similarity x) (similarity y)"
      from this tie have "feq (similarity x) (similarity z)" by (rule feq_trans)
      with assms(6) show ?thesis by (simp add: ranked_before_def)
    qed
  qed
qed

lemma sorted_sort_insert:
  assumes "sorted_wrt ranked_before ys"
    and "\<forall>y \<in> set ys. index x < index y"
    and "\<not> is_nan (similarity x)"
    and "\<forall>y \<in> set ys. \<not> is_nan (similarity y)"
  shows "sorted_wrt ranked_before (sort_insert by_similarity x ys)"
  using assms
proof (induction ys)
  case Nil
  then show ?case by simp
next
  case (Cons y ys)
  have c: "fless (Fin 0) (by_similarity x y) \<longleftrightarrow> fless (similarity x) (similarity y)"
    using Cons.prems by (simp add: by_similarity_def comparator_sign)
  show ?case
  proof (cases "fless (similarity x) (similarity y)")
    case True
    have "sorted_wrt ranked_before (sort_insert by_similarity x ys)"
      using Cons by simp
    moreover have "ranked_before y x" using True by (simp add: ranked_before_def)
    ultimately show ?thesis using True c Cons.prems by (simp add: set_sort_insert)
  next
    case False
    have "ranked_before x y"
      using fless_or_ge [of "similarity x" "similarity y"] False Cons.prems
      by (auto simp: ranked_before_def)
    moreover have "\<forall>z \<in> set ys. ranked_before x z"
    proof
      fix z
      assume z: "z \<in> set ys"
      with Cons.prems have "ranked_before y z" by simp
      then show "ranked_before x z"
        using False Cons.prems z by (intro ranked_before_first [of y z x]) simp_all
    qed
    ultimately show ?thesis using False c Cons.prems by simp
  qed
qed

lemma sorted_array_sort:
  assumes "sorted_wrt (\<lambda>x y. index x < index y) xs"
    and "\<forall>x \<in> set xs. \<not> is_nan (similarity x)"
  shows "sorted_wrt ranked_before (array_sort by_similarity xs)"
  using assms
proof (induction xs)
  case Nil
  then show ?case by simp
next
  case (Cons x xs)
  then show ?case
    by (simp add: sorted_sort_insert set_array_sort)
qed

lemma similarities_nth:
  "similarities q vs i = Inr sims \<Longrightarrow> j < length vs \<Longrightarrow>
     index (sims ! j) = i + j \<and> cosineSimilarity q (vs ! j) = Inr (similarity (sims ! j))"
proof (induction vs arbitrary: i sims j)
  case Nil
  then show ?case by simp
next
  case (Cons v vs)
  from Cons.prems(1) obtain s rest where
    s: "cosineSimilarity q v = Inr s" and r: "similarities q vs (Suc i) = Inr rest"
    and e: "sims = \<lparr>index = i, similarity = s\<rparr> # rest"
    by (auto split: sum.splits)
  show ?case
  proof (cases j)
    case 0
    with s e show ?thesis by simp
  next
    case (Suc j')
    with Cons.prems(2) have "j' < length vs" by simp
    from Cons.IH [OF r this] Suc e show ?thesis by simp
  qed
qed

lemma similarities_sorted_index:
  assumes "similarities q vs i = Inr sims"
  shows "sorted_wrt (\<lambda>x y. index x < index y) sims"
proof -
  have l: "length sims = length vs" using assms by (rule similarities_length)
  show ?thesis
    unfolding sorted_wrt_iff_nth_less
    using similarities_nth [OF assms] l by simp
qed

lemma ranked_before_fge: "ranked_before x y \<Longrightarrow> fge (similarity x) (similarity y)"
  by (auto simp: ranked_before_def fge_def)

lemma ranked_before_tie:
  "ranked_before x y \<Longrightarrow> feq (similarity x) (similarity y) \<Longrightarrow> index x < index y"
  by (auto simp: ranked_before_def fless_def feq_def)

text \<open>
  Claim C5, as amended. When \<^verbatim>\<open>findSimilar\<close> succeeds and none of the similarities it
  computes is NaN, each result's similarity is at least that of every later result,
  results of equal similarity appear in the order of their indices, and every result
  pairs the index of a candidate with the cosine similarity of the query and that
  candidate.
\<close>

theorem findSimilar_sorted_stable:
  "similarities q vs 0 = Inr sims \<longrightarrow> list_all (\<lambda>r. \<not> is_nan (similarity r)) sims \<longrightarrow>
     (\<exists>res. findSimilar q vs k = Inr res \<and>
        sorted_wrt (\<lambda>x y. fge (similarity x) (similarity y)) res \<and>
        (\<forall>i j. i < j \<and> j < length res \<and> feq (similarity (res ! i)) (similarity (res ! j))
           \<longrightarrow> index (res ! i) < index (res ! j)) \<and>
        (\<forall>r \<in> set res. index r < length vs \<and>
           cosineSimilarity q (vs ! index r) = Inr (similarity r)))"
proof (intro impI)
  assume s: "similarities q vs 0 = Inr sims"
    and n: "list_all (\<lambda>r. \<not> is_nan (similarity r)) sims"
  define sorted where "sorted = array_sort by_similarity sims"
  define res where "res = slice0 sorted k"
  have f: "findSimilar q vs k = Inr res"
    using s by (simp add: findSimilar_def res_def sorted_def by_similarity_def [abs_def])
  have "sorted_wrt ranked_before sorted"
    unfolding sorted_def using similarities_sorted_index [OF s] n
    by (intro sorted_array_sort) (simp_all add: list_all_iff)
  then have r: "sorted_wrt ranked_before res"
    by (simp add: res_def slice0_def Let_def sorted_wrt_take)
  have sub: "set res \<subseteq> set sims"
    using set_take_subset [of _ sorted] by (auto simp: res_def slice0_def Let_def sorted_def set_array_sort)
  have 1: "sorted_wrt (\<lambda>x y. fge (similarity x) (similarity y)) res"
    using r by (rule sorted_wrt_mono_rel [rotated]) (simp add: ranked_before_fge)
  have 2: "\<forall>i j. i < j \<and> j < length res \<and> feq (similarity (res ! i)) (similarity (res ! j))
      \<longrightarrow> index (res ! i) < index (res ! j)"
    using r by (auto simp: sorted_wrt_iff_nth_less intro: ranked_before_tie)
  have 3: "\<forall>r \<in> set res. index r < length vs \<and>
      cosineSimilarity q (vs ! index r) = Inr (similarity r)"
  proof
    fix r
    assume "r \<in> set res"
    with sub have "r \<in> set sims" by auto
    then obtain j where j: "j < length sims" "sims ! j = r" by (auto simp: in_set_conv_nth)
    moreover have "length sims = length vs" using s by (rule similarities_length)
    ultimately show "index r < length vs \<and> cosineSimilarity q (vs ! index r) = Inr (similarity r)"
      using similarities_nth [OF s, of j] by auto
  qed
  from f 1 2 3 show "\<exists>res. findSimilar q vs k = Inr res \<and>
        sorted_wrt (\<lambda>x y. fge (similarity x) (similarity y)) res \<and>
        (\<forall>i j. i < j \<and> j < length res \<and> feq (similarity (res ! i)) (similarity (res ! j))
           \<longrightarrow> index (res ! i) < index (res ! j)) \<and>
        (\<forall>r \<in> set res. index r < length vs \<and>
           cosineSimilarity q (vs ! index r) = Inr (similarity r))"
    by blast
qed

lemma negative_fneg: "\<not> is_nan b \<Longrightarrow> negative (fneg b) = (\<not> negative b)"
  by (cases b) auto

lemma fneg_signed: "fneg (signed_inf s) = signed_inf (\<not> s)" "fneg (signed_zero s) = signed_zero (\<not> s)"
  by (simp_all add: signed_inf_def signed_zero_def)

lemma fneg_props: "is_nan (fneg b) = is_nan b" "is_inf (fneg b) = is_inf b"
  "is_zero (fneg b) = is_zero b"
  by (cases b; simp)+

lemma fmul_fneg_right: "fmul a (fneg b) = fneg (fmul a b)"
proof (cases "is_nan a \<or> is_nan b \<or> is_inf a \<or> is_inf b \<or> is_zero a \<or> is_zero b")
  case True
  then show ?thesis
    by (auto simp: fmul_def fneg_props fneg_signed negative_fneg)
next
  case False
  then have "mag a \<noteq> 0" "mag b \<noteq> 0" by (cases a; cases b; simp)+
  then have "rat_of_int (mag a * mag b) / 2 ^ 1074 \<noteq> 0" by simp
  from fl_neg [OF this] False show ?thesis
    by (simp add: fmul_def fneg_props mag_fneg del: of_int_mult)
qed

lemma fdiv_fneg_left: "fdiv (fneg a) b = fneg (fdiv a b)"
proof (cases "is_nan a \<or> is_nan b \<or> is_inf a \<or> is_inf b \<or> is_zero a \<or> is_zero b")
  case True
  then show ?thesis
    by (auto simp: fdiv_def fneg_props fneg_signed negative_fneg)
next
  case False
  then have "mag a \<noteq> 0" "mag b \<noteq> 0" by (cases a; cases b; simp)+
  then have "rat_of_int (mag a) / rat_of_int (mag b) * 2 ^ 1074 \<noteq> 0" by simp
  from fl_neg [OF this] False show ?thesis
    by (simp add: fdiv_def fneg_props mag_fneg)
qed

lemma is_double_one: "is_double one"
  unfolding one_def by (rule is_double_power2) simp

lemma is_double_two_500: "is_double two_500"
  unfolding two_500_def by (rule is_double_power2) simp

lemma fadd_zero_fneg_two_500: "fadd (Fin 0) (fneg two_500) = fneg two_500"
  using fl_exact [of "- (2 ^ 1574)"] is_double_power2 [of 1574]
  by (simp add: fadd_def two_500_def del: power_numeral)

lemma fadd_zero_two_500: "fadd (Fin 0) two_500 = two_500"
  unfolding two_500_def by (rule fadd_zero_power2) simp

lemma fmul_two_500_one: "fmul two_500 one = two_500"
  unfolding two_500_def one_def by (rule fmul_power2 [where c = 1574]) simp_all

lemma fmul_two_500_two_500: "fmul two_500 two_500 = two_1000"
  unfolding two_500_def two_1000_def by (rule fmul_power2) simp_all

lemma fadd_zero_square_500: "fadd (Fin 0) two_1000 = two_1000"
  unfolding two_1000_def by (rule fadd_zero_power2) simp

lemma fsqrt_square_500: "fsqrt two_1000 = two_500"
  unfolding two_500_def two_1000_def by (rule fsqrt_power2) simp_all

lemma feq_square_500: "\<not> feq two_1000 (Fin 0)"
  by (simp add: feq_def two_1000_def del: power_numeral)

lemma fdiv_two_500_two_500: "fdiv two_500 two_500 = one"
  unfolding two_500_def one_def by (rule fdiv_power2) simp_all

lemma fmul_two_500_two_600: "fmul two_500 two_600 = PosInf"
  unfolding two_500_def two_600_def by (rule fmul_power2_overflow [where c = 2174]) simp_all

lemma fmul_two_500_PosInf: "fmul two_500 PosInf = PosInf"
  by (simp add: fmul_def signed_inf_def two_500_def del: power_numeral)

lemma fdiv_PosInf_PosInf: "fdiv PosInf PosInf = NaN"
  by (simp add: fdiv_def)

lemmas two_500_arith = fadd_zero_fneg_two_500 fadd_zero_two_500 fmul_two_500_one
  fmul_two_500_two_500 fadd_zero_square_500 fsqrt_square_500 feq_square_500
  fdiv_two_500_two_500 fmul_two_500_two_600 fmul_two_500_PosInf fdiv_PosInf_PosInf
  fmul_two_600 fadd_zero_PosInf feq_PosInf_zero

lemma fmul_two_500_fneg_one: "fmul two_500 (fneg one) = fneg two_500"
  by (simp add: fmul_fneg_right fmul_two_500_one)

lemma fdiv_fneg_two_500: "fdiv (fneg two_500) two_500 = fneg one"
  by (simp add: fdiv_fneg_left fdiv_two_500_two_500)

lemma cosine_opposite: "cosineSimilarity [two_500] [fneg one] = Inr (fneg one)"
  by (simp add: cosineSimilarity_def cosine_loop.simps elem_at_def fmul_two_500_fneg_one
      fmul_fneg_one fdiv_fneg_two_500 two_500_arith one_arith)

lemma cosine_overflow: "cosineSimilarity [two_500] [two_600] = Inr NaN"
  by (simp add: cosineSimilarity_def cosine_loop.simps elem_at_def two_500_arith)

lemma cosine_aligned: "cosineSimilarity [two_500] [one] = Inr one"
  by (simp add: cosineSimilarity_def cosine_loop.simps elem_at_def two_500_arith one_arith)

lemma fsub_NaN: "fsub a NaN = NaN" "fsub NaN a = NaN"
  by (simp_all add: fsub_def fadd_def)

lemma fge_NaN: "\<not> fge NaN a" "\<not> fge a NaN"
  by (simp_all add: fge_def fless_def feq_def)

lemma not_fless_zero_NaN: "\<not> fless (Fin 0) NaN"
  by (simp add: fless_def)

lemma fless_fneg_one_one: "fless (fneg one) one"
  by (simp add: fneg_one fless_def one_def del: power_numeral)

text \<open>
  Claim C5 as stated fails when a similarity is NaN. For the query \<^verbatim>\<open>[2^500]\<close> and the
  candidates \<^verbatim>\<open>[-1]\<close>, \<^verbatim>\<open>[2^600]\<close>, \<^verbatim>\<open>[1]\<close> the similarities are \<open>-1\<close>, NaN (the
  dot product and the second norm overflow, and \<open>\<infinity> / \<infinity>\<close> is NaN) and \<open>1\<close>. Every
  comparison with the NaN entry gives the comparator the result NaN, which counts as
  "equal", so nothing moves: the results come back in the order \<open>-1\<close>, NaN, \<open>1\<close>, which is
  not descending, and \<^verbatim>\<open>topK = 1\<close> returns the least similar candidate. Wherever a sort
  puts the NaN entry, it is neither at least nor at most its neighbours.
\<close>

theorem findSimilar_not_sorted:
  "is_double two_500 \<and> is_double two_600 \<and> is_double one \<and> is_double (fneg one) \<and>
   findSimilar [two_500] [[fneg one], [two_600], [one]] 3
     = Inr [\<lparr>index = 0, similarity = fneg one\<rparr>, \<lparr>index = 1, similarity = NaN\<rparr>,
            \<lparr>index = 2, similarity = one\<rparr>] \<and>
   fless (fneg one) one \<and> \<not> fge NaN one \<and> \<not> fge (fneg one) NaN \<and>
   findSimilar [two_500] [[fneg one], [two_600], [one]] 1
     = Inr [\<lparr>index = 0, similarity = fneg one\<rparr>]"
  by (simp add: is_double_two_500 is_double_two_600 is_double_one is_double_fneg
      findSimilar_def cosine_opposite cosine_overflow cosine_aligned fsub_NaN
      fless_fneg_one_one slice0_def fge_NaN not_fless_zero_NaN)

lemma fless_zero_one: "fless (Fin 0) one"
  by (simp add: fless_def one_def del: power_numeral)

lemma not_fless_zero_zero: "\<not> fless (Fin 0) (Fin 0)"
  by (simp add: fless_def)

lemma not_nan_one: "\<not> is_nan one"
  by (simp add: one_def)

theorem findSimilar_sorted_stable_witness:
  "similarities [one, Fin 0] [[Fin 0, one], [one, Fin 0], [Fin 0, one]] 0
     = Inr [\<lparr>index = 0, similarity = Fin 0\<rparr>, \<lparr>index = 1, similarity = one\<rparr>,
            \<lparr>index = 2, similarity = Fin 0\<rparr>] \<and>
   list_all (\<lambda>r. \<not> is_nan (similarity r))
     [\<lparr>index = 0, similarity = Fin 0\<rparr>, \<lparr>index = 1, similarity = one\<rparr>,
      \<lparr>index = 2, similarity = Fin 0\<rparr>] \<and>
   findSimilar [one, Fin 0] [[Fin 0, one], [one, Fin 0], [Fin 0, one]] 3
     = Inr [\<lparr>index = 1, similarity = one\<rparr>, \<lparr>index = 0, similarity = Fin 0\<rparr>,
            \<lparr>index = 2, similarity = Fin 0\<rparr>] \<and>
   sorted_wrt (\<lambda>x y. fge (similarity x) (similarity y))
     [\<lparr>index = 1, similarity = one\<rparr>, \<lparr>index = 0, similarity = Fin 0\<rparr>,
      \<lparr>index = 2, similarity = Fin 0\<rparr>]"
proof -
  have s: "similarities [one, Fin 0] [[Fin 0, one], [one, Fin 0], [Fin 0, one]] 0
     = Inr [\<lparr>index = 0, similarity = Fin 0\<rparr>, \<lparr>index = 1, similarity = one\<rparr>,
            \<lparr>index = 2, similarity = Fin 0\<rparr>]"
    by (simp add: cosine_unit_same cosine_unit_orthogonal)
  have n: "list_all (\<lambda>r. \<not> is_nan (similarity r))
     [\<lparr>index = 0, similarity = Fin 0\<rparr>, \<lparr>index = 1, similarity = one\<rparr>,
      \<lparr>index = 2, similarity = Fin 0\<rparr>]"
    by (simp add: not_nan_one)
  have f: "findSimilar [one, Fin 0] [[Fin 0, one], [one, Fin 0], [Fin 0, one]] 3
     = Inr [\<lparr>index = 1, similarity = one\<rparr>, \<lparr>index = 0, similarity = Fin 0\<rparr>,
            \<lparr>index = 2, similarity = Fin 0\<rparr>]"
    unfolding findSimilar_def s
    by (simp add: fsub_zero_one fsub_one_zero fsub_zero_zero
        not_fless_zero_fneg_one fless_zero_one not_fless_zero_zero slice0_def)
  from findSimilar_sorted_stable [of "[one, Fin 0]" "[[Fin 0, one], [one, Fin 0], [Fin 0, one]]"
      "[\<lparr>index = 0, similarity = Fin 0\<rparr>, \<lparr>index = 1, similarity = one\<rparr>,
        \<lparr>index = 2, similarity = Fin 0\<rparr>]" 3] s n f
  show ?thesis by simp
qed

lemma lit_8_10: "lit (8 / 10) = Fin (7205759403792794 * 2 ^ 1021)"
  unfolding lit_def by (rule fl_near) simp_all

lemma lit_6_10: "lit (6 / 10) = Fin (5404319552844595 * 2 ^ 1021)"
  unfolding lit_def by (rule fl_near) simp_all

lemma lit_4_10: "lit (4 / 10) = Fin (7205759403792794 * 2 ^ 1020)"
  unfolding lit_def by (rule fl_near) simp_all


text \<open>
  Claim C8. The label is chosen by strict comparisons with the doubles nearest to \<open>0.8\<close>,
  \<open>0.6\<close> and \<open>0.4\<close>: above the first "Very similar", else above the second "Similar",
  else above the third "Somewhat similar", and "Not similar" in every other case (NaN
  included). The conditional expression written in the route gives the same label as
  \<^verbatim>\<open>getSimilarity\<close>. A similarity equal to a threshold falls in the lower bucket:
  \<open>0.8\<close> is "Similar", \<open>0.6\<close> is "Somewhat similar" and \<open>0.4\<close> is "Not similar".
\<close>

theorem similarity_labels:
  "(getSimilarity s = ''Very similar'' \<longleftrightarrow> fless (lit (8 / 10)) s) \<and>
   (getSimilarity s = ''Similar'' \<longleftrightarrow> \<not> fless (lit (8 / 10)) s \<and> fless (lit (6 / 10)) s) \<and>
   (getSimilarity s = ''Somewhat similar'' \<longleftrightarrow>
      \<not> fless (lit (8 / 10)) s \<and> \<not> fless (lit (6 / 10)) s \<and> fless (lit (4 / 10)) s) \<and>
   (getSimilarity s = ''Not similar'' \<longleftrightarrow>
      \<not> fless (lit (8 / 10)) s \<and> \<not> fless (lit (6 / 10)) s \<and> \<not> fless (lit (4 / 10)) s) \<and>
   interpretation_label s = getSimilarity s \<and>
   getSimilarity (lit (8 / 10)) = ''Similar'' \<and>
   getSimilarity (lit (6 / 10)) = ''Somewhat similar'' \<and>
   getSimilarity (lit (4 / 10)) = ''Not similar''"
proof -
  have general:
    "(getSimilarity s = ''Very similar'' \<longleftrightarrow> fless (lit (8 / 10)) s) \<and>
     (getSimilarity s = ''Similar'' \<longleftrightarrow> \<not> fless (lit (8 / 10)) s \<and> fless (lit (6 / 10)) s) \<and>
     (getSimilarity s = ''Somewhat similar'' \<longleftrightarrow>
        \<not> fless (lit (8 / 10)) s \<and> \<not> fless (lit (6 / 10)) s \<and> fless (lit (4 / 10)) s) \<and>
     (getSimilarity s = ''Not similar'' \<longleftrightarrow>
        \<not> fless (lit (8 / 10)) s \<and> \<not> fless (lit (6 / 10)) s \<and> \<not> fless (lit (4 / 10)) s) \<and>
     interpretation_label s = getSimilarity s"
    by (simp add: getSimilarity_def interpretation_label_def)
  have boundary:
    "getSimilarity (lit (8 / 10)) = ''Similar'' \<and>
     getSimilarity (lit (6 / 10)) = ''Somewhat similar'' \<and>
     getSimilarity (lit (4 / 10)) = ''Not similar''"
    unfolding getSimilarity_def lit_8_10 lit_6_10 lit_4_10 by (simp add: fless_def)
  from general boundary show ?thesis by blast
qed

subsection \<open>The scenarios of the specification\<close>

text \<open>
  The concrete scenarios the specification lists, evaluated in the model:
  \<^verbatim>\<open>cosineSimilarity([1,0],[0,1]) == 0\<close> and \<^verbatim>\<open>cosineSimilarity([1,0],[1,0]) == 1\<close> are
  \<open>cosine_unit_orthogonal\<close> and \<open>cosine_unit_same\<close> above. Here:
  \<^verbatim>\<open>findSimilar([1,0], [[1,0],[0,1],[0.9,0.1]], 2)\<close> returns the indices \<open>0\<close> and \<open>2\<close>, with
  the similarities \<open>1\<close> and \<^verbatim>\<open>0.9938837346736189\<close>; \<^verbatim>\<open>euclideanDistance([0,0],[3,4])\<close> is
  \<open>5\<close>; and, as a check of the arithmetic, \<^verbatim>\<open>0.1 + 0.2\<close> is \<^verbatim>\<open>0.30000000000000004\<close>, not
  \<^verbatim>\<open>0.3\<close>.
\<close>

lemma lit_9_10: "lit (9 / 10) = Fin (8106479329266893 * 2 ^ 1021)"
  unfolding lit_def by (rule fl_near) simp_all

lemma lit_1_10: "lit (1 / 10) = Fin (7205759403792794 * 2 ^ 1018)"
  unfolding lit_def by (rule fl_near) simp_all

lemma lit_result: "lit (9938837346736189 / 10000000000000000) = Fin (8952108834251414 * 2 ^ 1021)"
  unfolding lit_def by (rule fl_near) simp_all

lemma square_9_10: "fmul (Fin (8106479329266893 * 2 ^ 1021)) (Fin (8106479329266893 * 2 ^ 1021)) = Fin (7295831396340204 * 2 ^ 1021)"
  by (rule fmul_near) simp_all

lemma square_1_10: "fmul (Fin (7205759403792794 * 2 ^ 1018)) (Fin (7205759403792794 * 2 ^ 1018)) = Fin (5764607523034236 * 2 ^ 1015)"
  by (rule fmul_near) simp_all

lemma sum_squares: "fadd (Fin (7295831396340204 * 2 ^ 1021)) (Fin (5764607523034236 * 2 ^ 1015)) = Fin (7385903388887614 * 2 ^ 1021)"
  by (rule fadd_near [where s = 1021 and m = 7385903388887614]) simp_all

lemma root_sum: "fsqrt (Fin (7385903388887614 * 2 ^ 1021)) = Fin (8156365826762400 * 2 ^ 1021)"
  by (rule fsqrt_near [where f = 183283035652454542452190314415648822567861276845586559813378511612156309145280430147518207519056074461697680990925901561400632923341602638779576010212454202563755895085888095578685869427901193396564145474135602073686453854779728829992922554401872180248385953467531991423836498669565156182933483599038737838559839981258793885 and s = 1021]) simp_all

lemma quotient: "fdiv (Fin (8106479329266893 * 2 ^ 1021)) (Fin (8156365826762400 * 2 ^ 1021)) = Fin (8952108834251414 * 2 ^ 1021)"
  by (rule fdiv_near) simp_all

lemma cosine_scenario:
  "cosineSimilarity [one, Fin 0] [lit (9 / 10), lit (1 / 10)]
     = Inr (lit (9938837346736189 / 10000000000000000))"
proof -
  define a where "a = Fin (8106479329266893 * 2 ^ 1021)"
  define b where "b = Fin (7205759403792794 * 2 ^ 1018)"
  define aa where "aa = Fin (7295831396340204 * 2 ^ 1021)"
  define bb where "bb = Fin (5764607523034236 * 2 ^ 1015)"
  define nb where "nb = Fin (7385903388887614 * 2 ^ 1021)"
  define sq where "sq = Fin (8156365826762400 * 2 ^ 1021)"
  define r where "r = Fin (8952108834251414 * 2 ^ 1021)"
  have la: "lit (9 / 10) = a" unfolding a_def by (rule lit_9_10)
  have lb: "lit (1 / 10) = b" unfolding b_def by (rule lit_1_10)
  have lr: "lit (9938837346736189 / 10000000000000000) = r" unfolding r_def by (rule lit_result)
  have da: "is_double (Fin (8106479329266893 * 2 ^ 1021))" by (rule is_double_scaled) simp_all
  have daa: "is_double (Fin (7295831396340204 * 2 ^ 1021))" by (rule is_double_scaled) simp_all
  have dsq: "is_double (Fin (8156365826762400 * 2 ^ 1021))" by (rule is_double_scaled) simp_all
  have e1: "fmul one a = a" unfolding a_def using da by (rule fmul_one_left)
  have e2: "fadd (Fin 0) a = a" unfolding a_def using da by (rule fadd_zero_left)
  have e3: "fadd (Fin 0) aa = aa" unfolding aa_def using daa by (rule fadd_zero_left)
  have e4: "fadd a (Fin 0) = a" unfolding a_def using da by (rule fadd_zero_right)
  have e5: "fmul one sq = sq" unfolding sq_def using dsq by (rule fmul_one_left)
  have z: "fmul (Fin 0) b = Fin 0" unfolding b_def by (rule fmul_zero_pos) simp
  have c1: "fmul a a = aa" unfolding a_def aa_def by (rule square_9_10)
  have c2: "fmul b b = bb" unfolding b_def bb_def by (rule square_1_10)
  have c3: "fadd aa bb = nb" unfolding aa_def bb_def nb_def by (rule sum_squares)
  have c4: "fsqrt nb = sq" unfolding nb_def sq_def by (rule root_sum)
  have c5: "fdiv a sq = r" unfolding a_def sq_def r_def by (rule quotient)
  have n: "\<not> feq nb (Fin 0)" unfolding nb_def by (simp add: feq_def)
  show ?thesis
    unfolding la lb lr
    by (simp add: cosineSimilarity_def cosine_loop.simps elem_at_def e1 e2 e3 e4 e5 z
        c1 c2 c3 c4 c5 n one_arith)
qed

lemma scenario_order:
  "fless (Fin 0) (lit (9938837346736189 / 10000000000000000))"
  "\<not> fless one (lit (9938837346736189 / 10000000000000000))"
  "\<not> is_nan (lit (9938837346736189 / 10000000000000000))"
  unfolding lit_result one_def by (simp_all add: fless_def)

lemma findSimilar_scenario:
  "findSimilar [one, Fin 0] [[one, Fin 0], [Fin 0, one], [lit (9 / 10), lit (1 / 10)]] 2
     = Inr [\<lparr>index = 0, similarity = one\<rparr>,
            \<lparr>index = 2, similarity = lit (9938837346736189 / 10000000000000000)\<rparr>]"
proof -
  define r where "r = lit (9938837346736189 / 10000000000000000)"
  have o: "fless (Fin 0) r" "\<not> fless one r" "\<not> is_nan r"
    unfolding r_def by (rule scenario_order)+
  have c: "cosineSimilarity [one, Fin 0] [lit (9 / 10), lit (1 / 10)] = Inr r"
    unfolding r_def by (rule cosine_scenario)
  have s1: "fless (Fin 0) (fsub r (Fin 0))" using o by (simp add: comparator_sign)
  have s2: "\<not> fless (Fin 0) (fsub r one)" using o by (simp add: comparator_sign not_nan_one)
  show ?thesis
    unfolding r_def [symmetric]
    by (simp add: findSimilar_def cosine_unit_same cosine_unit_orthogonal c s1 s2 slice0_def)
qed

lemma lit_1_5: "lit (1 / 5) = Fin (7205759403792794 * 2 ^ 1019)"
  unfolding lit_def by (rule fl_near) simp_all

lemma lit_3_10: "lit (3 / 10) = Fin (5404319552844595 * 2 ^ 1020)"
  unfolding lit_def by (rule fl_near) simp_all

lemma lit_sum: "lit (30000000000000004 / 100000000000000000) = Fin (5404319552844596 * 2 ^ 1020)"
  unfolding lit_def by (rule fl_near) simp_all

lemma tenth_plus_fifth:
  "fadd (lit (1 / 10)) (lit (1 / 5)) = lit (30000000000000004 / 100000000000000000) \<and>
   \<not> feq (fadd (lit (1 / 10)) (lit (1 / 5))) (lit (3 / 10))"
proof -
  define x where "x = Fin (5404319552844596 * 2 ^ 1020)"
  define y where "y = Fin (5404319552844595 * 2 ^ 1020)"
  have s: "fadd (Fin (7205759403792794 * 2 ^ 1018)) (Fin (7205759403792794 * 2 ^ 1019)) = x"
    unfolding x_def by (rule fadd_tie) simp_all
  have l: "lit (30000000000000004 / 100000000000000000) = x" "lit (3 / 10) = y"
    unfolding x_def y_def by (rule lit_sum lit_3_10)+
  have n: "\<not> feq x y" unfolding x_def y_def by (simp add: feq_def)
  show ?thesis unfolding lit_1_10 lit_1_5 s l using n by simp
qed

lemma lit_integers:
  "lit 0 = Fin 0 \<and> lit 1 = one \<and> lit 3 = Fin (6755399441055744 * 2 ^ 1023) \<and> lit 4 = Fin (4503599627370496 * 2 ^ 1024) \<and> lit 5 = Fin (5629499534213120 * 2 ^ 1024)"
proof -
  have "lit 0 = Fin 0" by (simp add: lit_def fl_def)
  moreover have "lit 1 = one" unfolding lit_def one_def using fl_power2 [of 1074] by simp
  moreover have "lit 3 = Fin (6755399441055744 * 2 ^ 1023)" unfolding lit_def by (rule fl_near) simp_all
  moreover have "lit 4 = Fin (4503599627370496 * 2 ^ 1024)" unfolding lit_def by (rule fl_near) simp_all
  moreover have "lit 5 = Fin (5629499534213120 * 2 ^ 1024)" unfolding lit_def by (rule fl_near) simp_all
  ultimately show ?thesis by blast
qed

lemma euclidean_scenario: "euclideanDistance [lit 0, lit 0] [lit 3, lit 4] = Inr (lit 5)"
proof -
  define t3 where "t3 = Fin (6755399441055744 * 2 ^ 1023)"
  define t4 where "t4 = Fin (4503599627370496 * 2 ^ 1024)"
  define t5 where "t5 = Fin (5629499534213120 * 2 ^ 1024)"
  define t9 where "t9 = Fin (5066549580791808 * 2 ^ 1025)"
  define t16 where "t16 = Fin (4503599627370496 * 2 ^ 1026)"
  define t25 where "t25 = Fin (7036874417766400 * 2 ^ 1026)"
  have l: "lit 0 = Fin 0" "lit 3 = t3" "lit 4 = t4" "lit 5 = t5"
    unfolding t3_def t4_def t5_def using lit_integers by blast+
  have d3: "is_double (Fin (6755399441055744 * 2 ^ 1023))" by (rule is_double_scaled) simp_all
  have d4: "is_double (Fin (4503599627370496 * 2 ^ 1024))" by (rule is_double_scaled) simp_all
  have d5: "is_double (Fin (5629499534213120 * 2 ^ 1024))" by (rule is_double_scaled) simp_all
  have d9: "is_double (Fin (5066549580791808 * 2 ^ 1025))" by (rule is_double_scaled) simp_all
  define n3 where "n3 = Fin (- (6755399441055744 * 2 ^ 1023))"
  define n4 where "n4 = Fin (- (4503599627370496 * 2 ^ 1024))"
  have s3: "fsub (Fin 0) t3 = n3"
    unfolding t3_def n3_def using d3 by (rule fsub_zero_left) simp
  have s4: "fsub (Fin 0) t4 = n4"
    unfolding t4_def n4_def using d4 by (rule fsub_zero_left) simp
  have "fmul (Fin (6755399441055744 * 2 ^ 1023)) (Fin (6755399441055744 * 2 ^ 1023)) = t9"
    unfolding t9_def by (rule fmul_near) simp_all
  then have m3: "fmul n3 n3 = t9"
    unfolding n3_def by (subst fmul_minus_minus) simp_all
  have "fmul (Fin (4503599627370496 * 2 ^ 1024)) (Fin (4503599627370496 * 2 ^ 1024)) = t16"
    unfolding t16_def by (rule fmul_near) simp_all
  then have m4: "fmul n4 n4 = t16"
    unfolding n4_def by (subst fmul_minus_minus) simp_all
  have a1: "fadd (Fin 0) t9 = t9" unfolding t9_def using d9 by (rule fadd_zero_left)
  have a2: "fadd t9 t16 = t25" unfolding t9_def t16_def t25_def by (rule fadd_near) simp_all
  have r: "fsqrt t25 = t5"
    unfolding t25_def t5_def using d5 by (intro fsqrt_exact) simp_all
  show ?thesis
    unfolding l
    by (simp add: euclideanDistance_def euclidean_loop.simps elem_at_def Let_def
        s3 s4 m3 m4 a1 a2 r)
qed

section \<open>Accuracy of the vector operations\<close>

text \<open>
  The computed results are compared with the formulas of the specification, for vectors
  of at most \<^verbatim>\<open>2^20\<close> components that are zero or of a size between \<^verbatim>\<open>2^-500\<close> and
  \<^verbatim>\<open>2^500\<close>. The squares and products are then in the normal range, no sum overflows,
  and each operation adds one rounding.
\<close>

subsection \<open>The sum of squares and the norm\<close>

lemma in_range_finite: "in_range x \<Longrightarrow> is_finite x"
  by (simp add: in_range_def)

lemma in_range_val:
  assumes "in_range x"
  shows "val x = 0 \<or> 1 / 2 ^ 500 \<le> \<bar>val x\<bar> \<and> \<bar>val x\<bar> \<le> 2 ^ 500"
proof (cases "mag x = 0")
  case True
  then show ?thesis by (simp add: val_def)
next
  case False
  define U :: real where "U = 2 ^ 1074"
  have U: "0 < U" by (simp add: U_def)
  have a: "\<bar>val x\<bar> = real_of_int \<bar>mag x\<bar> / U" using U by (simp add: val_def U_def abs_divide)
  from False assms have "2 ^ 574 \<le> \<bar>mag x\<bar>" "\<bar>mag x\<bar> \<le> 2 ^ 1574" by (simp_all add: in_range_def)
  then have "real_of_int (2 ^ 574) \<le> real_of_int \<bar>mag x\<bar>" "real_of_int \<bar>mag x\<bar> \<le> real_of_int (2 ^ 1574)"
    by (simp_all only: of_int_le_iff)
  then have "real_of_int (2 ^ 574) / U \<le> \<bar>val x\<bar>" "\<bar>val x\<bar> \<le> real_of_int (2 ^ 1574) / U"
    unfolding a using U by (simp_all only: divide_right_mono less_imp_le)
  moreover have "real_of_int (2 ^ 574) / U = 1 / 2 ^ 500" by (simp add: U_def)
  moreover have "real_of_int (2 ^ 1574) / U = 2 ^ 500" by (simp add: U_def)
  ultimately show ?thesis by simp
qed

lemma in_range_square:
  assumes "in_range x"
  shows "(val x)\<^sup>2 = 0 \<or> 1 / 2 ^ 1000 \<le> (val x)\<^sup>2 \<and> (val x)\<^sup>2 \<le> 2 ^ 1000"
proof (cases "val x = 0")
  case True
  then show ?thesis by simp
next
  case False
  with in_range_val [OF assms] have b: "1 / 2 ^ 500 \<le> \<bar>val x\<bar>" "\<bar>val x\<bar> \<le> 2 ^ 500" by simp_all
  have "(1 / 2 ^ 500)\<^sup>2 \<le> \<bar>val x\<bar>\<^sup>2" using b(1) by (intro power_mono) simp_all
  moreover have "\<bar>val x\<bar>\<^sup>2 \<le> (2 ^ 500)\<^sup>2" using b(2) by (intro power_mono) simp_all
  moreover have "((1::real) / 2 ^ 500)\<^sup>2 = 1 / 2 ^ 1000" by (simp add: power_divide power_mult [symmetric] del: power_numeral)
  moreover have "((2::real) ^ 500)\<^sup>2 = 2 ^ 1000" by (simp add: power_mult [symmetric] del: power_numeral)
  ultimately show ?thesis by simp
qed

lemma fmul_square:
  assumes "in_range x"
  shows "is_finite (fmul x x) \<and> near 1 (val (fmul x x)) ((val x)\<^sup>2)"
proof -
  note f = in_range_finite [OF assms]
  have "(1::real) / 2 ^ 1022 \<le> 1 / 2 ^ 1000" by (simp add: field_simps)
  moreover have "(2::real) ^ 1000 \<le> 2 ^ 1023" by (rule power_increasing) simp_all
  ultimately have "val x * val x = 0 \<or>
      1 / 2 ^ 1022 \<le> \<bar>val x * val x\<bar> \<and> \<bar>val x * val x\<bar> \<le> 2 ^ 1023"
    using in_range_square [OF assms] by (auto simp: power2_eq_square abs_mult)
  from fmul_error [OF f f this]
  have fin: "is_finite (fmul x x)"
    and e: "\<bar>val (fmul x x) - (val x)\<^sup>2\<bar> \<le> (val x)\<^sup>2 / 2 ^ 53"
    by (simp_all add: power2_eq_square abs_mult)
  from e have "near 1 (val (fmul x x)) ((val x)\<^sup>2)" by (rule near_round) simp
  with fin show ?thesis by simp
qed

lemma sum_squares_nonneg: "0 \<le> sum_list (map (\<lambda>x. (val x)\<^sup>2) v)"
  by (induction v) simp_all

lemma sum_squares_member:
  "x \<in> set v \<Longrightarrow> (val x)\<^sup>2 \<le> sum_list (map (\<lambda>x. (val x)\<^sup>2) v)"
proof (induction v)
  case Nil
  then show ?case by simp
next
  case (Cons a v)
  have a: "0 \<le> (val a)\<^sup>2" by simp
  show ?case
  proof (cases "x = a")
    case True
    then show ?thesis using sum_squares_nonneg [of v] by simp
  next
    case False
    with Cons have "(val x)\<^sup>2 \<le> sum_list (map (\<lambda>x. (val x)\<^sup>2) v)" by simp
    then show ?thesis by (simp add: add_increasing)
  qed
qed

lemma sum_squares_bound:
  "list_all in_range v \<Longrightarrow> sum_list (map (\<lambda>x. (val x)\<^sup>2) v) \<le> real (length v) * 2 ^ 1000"
proof (induction v)
  case Nil
  then show ?case by simp
next
  case (Cons a v)
  then have "(val a)\<^sup>2 \<le> 2 ^ 1000" using in_range_square [of a] by auto
  with Cons show ?case by (simp add: algebra_simps)
qed

lemma length_bound: "length v \<le> 2 ^ 20 \<Longrightarrow> length v + 3 \<le> 2 ^ 52"
proof -
  assume "length v \<le> 2 ^ 20"
  moreover have "(2::nat) ^ 20 + 3 \<le> 2 ^ 52" by simp
  ultimately show ?thesis by linarith
qed

lemma sum_squares_error:
  assumes "list_all in_range v" and "length v \<le> 2 ^ 20"
  shows "is_finite (foldl fadd (Fin 0) (map (\<lambda>x. fmul x x) v)) \<and>
     near (length v + 1) (val (foldl fadd (Fin 0) (map (\<lambda>x. fmul x x) v)))
       (sum_list (map (\<lambda>x. (val x)\<^sup>2) v))"
  using assms
proof (induction v rule: rev_induct)
  case Nil
  show ?case by (simp add: val_def near_def)
next
  case (snoc x v)
  define s where "s = foldl fadd (Fin 0) (map (\<lambda>x. fmul x x) v)"
  define S where "S = sum_list (map (\<lambda>x. (val x)\<^sup>2) v)"
  define n where "n = length v"
  from snoc.prems have rv: "list_all in_range v" and rx: "in_range x" and len: "n + 1 \<le> 2 ^ 20"
    by (simp_all add: n_def)
  from len have len': "length v \<le> 2 ^ 20" by (simp add: n_def)
  from snoc.IH [OF rv len'] have fs: "is_finite s" and ns: "near (n + 1) (val s) S"
    by (simp_all add: s_def S_def n_def)
  from fmul_square [OF rx] have fp: "is_finite (fmul x x)"
    and np: "near 1 (val (fmul x x)) ((val x)\<^sup>2)" by simp_all
  have S0: "0 \<le> S" unfolding S_def by (rule sum_squares_nonneg)
  have Sb: "S \<le> real n * 2 ^ 1000" unfolding S_def n_def using rv by (rule sum_squares_bound)
  have xb: "(val x)\<^sup>2 \<le> 2 ^ 1000" using in_range_square [OF rx] by auto
  have m52: "n + 1 \<le> 2 ^ 52" using length_bound [OF len'] unfolding n_def by linarith
  have s0: "0 \<le> val s" using ns S0 by (rule near_nonneg)
  have p0: "0 \<le> val (fmul x x)" using np by (rule near_nonneg) simp
  have "val s \<le> 2 * S" using ns S0 m52 by (rule near_le_double)
  moreover have "val (fmul x x) \<le> 2 * (val x)\<^sup>2" using np by (rule near_le_double) simp_all
  ultimately have "val s + val (fmul x x) \<le> 2 * (real n * 2 ^ 1000) + 2 * 2 ^ 1000"
    using Sb xb by linarith
  also have "\<dots> = real (n + 1) * 2 ^ 1001" by (simp add: algebra_simps)
  also have "\<dots> \<le> 2 ^ 20 * 2 ^ 1001"
  proof (rule mult_right_mono)
    show "real (n + 1) \<le> 2 ^ 20" using len by (metis of_nat_le_iff of_nat_numeral of_nat_power)
  qed simp
  also have "\<dots> \<le> 2 ^ 1023" by (simp add: power_add [symmetric] del: power_numeral)
  finally have b: "\<bar>val s + val (fmul x x)\<bar> \<le> 2 ^ 1023" using s0 p0 by simp
  from fadd_error [OF fs fp b]
  have fin: "is_finite (fadd s (fmul x x))"
    and e: "\<bar>val (fadd s (fmul x x)) - (val s + val (fmul x x))\<bar> \<le> (val s + val (fmul x x)) / 2 ^ 53"
    using s0 p0 by simp_all
  from e have n1: "near 1 (val (fadd s (fmul x x))) (val s + val (fmul x x))"
    by (rule near_round) (simp add: s0 p0)
  have "near (n + 1) (val (fmul x x)) ((val x)\<^sup>2)"
    using np by (rule near_mono) (simp_all add: p0)
  with ns have "near (n + 1) (val s + val (fmul x x)) (S + (val x)\<^sup>2)" by (rule near_add)
  with n1 have "near (1 + (n + 1)) (val (fadd s (fmul x x))) (S + (val x)\<^sup>2)" by (rule near_trans)
  with fin show ?case by (simp add: s_def S_def n_def)
qed

lemma not_all_zero:
  assumes "list_all is_finite v" and "\<not> list_all is_zero v"
  shows "0 < sum_list (map (\<lambda>x. (val x)\<^sup>2) v)"
proof -
  from assms(2) obtain x where x: "x \<in> set v" "\<not> is_zero x" by (auto simp: list_all_iff)
  from assms(1) x(1) have "is_finite x" by (auto simp: list_all_iff)
  with x(2) have "val x \<noteq> 0" by (simp add: val_zero_iff)
  then have "0 < (val x)\<^sup>2" by simp
  also have "\<dots> \<le> sum_list (map (\<lambda>x. (val x)\<^sup>2) v)" using x(1) by (rule sum_squares_member)
  finally show ?thesis .
qed

lemma all_zero_sum: "list_all is_zero v \<Longrightarrow> sum_list (map (\<lambda>x. (val x)\<^sup>2) v) = 0"
proof (induction v)
  case Nil
  show ?case by simp
next
  case (Cons a v)
  then have "is_zero a" by simp
  then have "val a = 0" by (cases a) (simp_all add: val_def)
  with Cons show ?case by simp
qed

lemma vector_norm_zero_iff:
  assumes "list_all is_finite v"
  shows "vector_norm v = 0 \<longleftrightarrow> list_all is_zero v"
proof
  assume "vector_norm v = 0"
  then have "sum_list (map (\<lambda>x. (val x)\<^sup>2) v) = 0" by (simp add: vector_norm_def)
  with not_all_zero [OF assms] show "list_all is_zero v" by fastforce
next
  assume "list_all is_zero v"
  then show "vector_norm v = 0" by (simp add: vector_norm_def all_zero_sum)
qed

lemma in_range_all_finite: "list_all in_range v \<Longrightarrow> list_all is_finite v"
  by (simp add: list_all_iff in_range_finite)

lemma computed_norm_error:
  assumes "list_all in_range v" and "length v \<le> 2 ^ 20" and "\<not> list_all is_zero v"
  shows "is_finite (fsqrt (foldl fadd (Fin 0) (map (\<lambda>x. fmul x x) v))) \<and>
     near (length v + 2) (val (fsqrt (foldl fadd (Fin 0) (map (\<lambda>x. fmul x x) v)))) (vector_norm v)"
proof -
  define s where "s = foldl fadd (Fin 0) (map (\<lambda>x. fmul x x) v)"
  define S where "S = sum_list (map (\<lambda>x. (val x)\<^sup>2) v)"
  define n where "n = length v"
  from sum_squares_error [OF assms(1,2)] have fs: "is_finite s" and ns: "near (n + 1) (val s) S"
    by (simp_all add: s_def S_def n_def)
  have S0: "0 < S" unfolding S_def using in_range_all_finite [OF assms(1)] assms(3) by (rule not_all_zero)
  have s0: "0 < val s" using ns S0 by (rule near_pos)
  have m52: "n + 1 \<le> 2 ^ 52" using length_bound [OF assms(2)] unfolding n_def by linarith
  have "val s \<le> 2 * S" by (rule near_le_double [OF ns _ m52]) (simp add: S0 less_imp_le)
  also have "\<dots> \<le> 2 * (real n * 2 ^ 1000)"
    using sum_squares_bound [OF assms(1)] by (simp add: S_def n_def)
  also have "\<dots> = real n * 2 ^ 1001" by simp
  also have "\<dots> \<le> 2 ^ 20 * 2 ^ 1001"
  proof (rule mult_right_mono)
    show "real n \<le> 2 ^ 20" using assms(2) unfolding n_def
      by (metis of_nat_le_iff of_nat_numeral of_nat_power)
  qed simp
  also have "\<dots> \<le> 2 ^ 1024" by (simp add: power_add [symmetric] del: power_numeral)
  finally have sb: "val s \<le> 2 ^ 1024" .
  from fsqrt_error [OF fs s0 sb] have fin: "is_finite (fsqrt s)"
    and e: "\<bar>val (fsqrt s) - sqrt (val s)\<bar> \<le> sqrt (val s) / 2 ^ 53" by simp_all
  from e have n1: "near 1 (val (fsqrt s)) (sqrt (val s))" by (rule near_round) (simp add: s0 less_imp_le)
  have "near (2 * (n + 1)) (val s) S"
    using ns by (rule near_mono) (simp_all add: s0 S0 less_imp_le)
  then have "near (n + 1) (sqrt (val s)) (sqrt S)" by (rule near_sqrt) (simp add: S0 less_imp_le)
  with n1 have "near (1 + (n + 1)) (val (fsqrt s)) (sqrt S)" by (rule near_trans)
  with fin show ?thesis by (simp add: s_def S_def n_def vector_norm_def)
qed

lemma vector_norm_bound:
  assumes "list_all in_range v" and "length v \<le> 2 ^ 20"
  shows "vector_norm v \<le> 2 ^ 510"
proof -
  have "sum_list (map (\<lambda>x. (val x)\<^sup>2) v) \<le> real (length v) * 2 ^ 1000"
    using assms(1) by (rule sum_squares_bound)
  also have "\<dots> \<le> 2 ^ 20 * 2 ^ 1000"
  proof (rule mult_right_mono)
    show "real (length v) \<le> 2 ^ 20" using assms(2)
      by (metis of_nat_le_iff of_nat_numeral of_nat_power)
  qed simp
  also have "\<dots> = (2 ^ 510)\<^sup>2" by (simp add: power_add [symmetric] power_mult [symmetric] del: power_numeral)
  finally show ?thesis unfolding vector_norm_def by (intro real_le_lsqrt) simp_all
qed

lemma vector_norm_member:
  assumes "x \<in> set v"
  shows "\<bar>val x\<bar> \<le> vector_norm v"
proof -
  have "(val x)\<^sup>2 \<le> sum_list (map (\<lambda>x. (val x)\<^sup>2) v)" using assms by (rule sum_squares_member)
  then have "sqrt ((val x)\<^sup>2) \<le> vector_norm v" unfolding vector_norm_def by (simp only: real_sqrt_le_iff)
  then show ?thesis by simp
qed

lemma same_sign_abs:
  fixes r q :: real
  assumes "\<bar>r - q\<bar> \<le> \<bar>q\<bar> / 2 ^ 53"
  shows "\<bar>\<bar>r\<bar> - \<bar>q\<bar>\<bar> \<le> \<bar>q\<bar> / 2 ^ 53 \<and> 0 \<le> r * q"
proof -
  have h: "\<bar>q\<bar> / 2 ^ 53 \<le> \<bar>q\<bar>" by (simp add: field_simps)
  have 1: "\<bar>\<bar>r\<bar> - \<bar>q\<bar>\<bar> \<le> \<bar>q\<bar> / 2 ^ 53" using assms by linarith
  have "0 \<le> r * q"
  proof (cases "0 \<le> q")
    case True
    with assms h have "0 \<le> r" by linarith
    with True show ?thesis by simp
  next
    case False
    with assms h have "r \<le> 0" by linarith
    with False show ?thesis by (simp add: mult_nonpos_nonpos)
  qed
  with 1 show ?thesis by simp
qed

lemma component_error:
  assumes "list_all in_range v" and "length v \<le> 2 ^ 20" and "\<not> list_all is_zero v"
    and "x \<in> set v"
  defines "nrm \<equiv> fsqrt (foldl fadd (Fin 0) (map (\<lambda>x. fmul x x) v))"
  shows "is_finite (fdiv x nrm) \<and>
     near (length v + 3) \<bar>val (fdiv x nrm)\<bar> (\<bar>val x\<bar> / vector_norm v) \<and>
     0 \<le> val (fdiv x nrm) * val x"
proof -
  define N where "N = vector_norm v"
  define n where "n = length v"
  from computed_norm_error [OF assms(1,2,3)] have fn: "is_finite nrm"
    and nn: "near (n + 2) (val nrm) N" by (simp_all add: nrm_def N_def n_def)
  have S0: "0 < sum_list (map (\<lambda>x. (val x)\<^sup>2) v)"
    using in_range_all_finite [OF assms(1)] assms(3) by (rule not_all_zero)
  then have N0: "0 < N" by (simp add: N_def vector_norm_def)
  have v0: "0 < val nrm" using nn N0 by (rule near_pos)
  have m52: "n + 2 \<le> 2 ^ 52" using length_bound [OF assms(2)] unfolding n_def by linarith
  have up: "val nrm \<le> 2 * N" by (rule near_le_double [OF nn _ m52]) (simp add: N0 less_imp_le)
  have dn: "N \<le> 2 * val nrm" by (rule near_ge_half [OF nn _ m52]) (simp add: N0 less_imp_le)
  have rx: "in_range x" using assms(1,4) by (auto simp: list_all_iff)
  note fx = in_range_finite [OF rx]
  have xN: "\<bar>val x\<bar> \<le> N" unfolding N_def using assms(4) by (rule vector_norm_member)
  have Nb: "N \<le> 2 ^ 510" unfolding N_def using assms(1,2) by (rule vector_norm_bound)
  have q: "val x = 0 \<or> 1 / 2 ^ 1022 \<le> \<bar>val x / val nrm\<bar> \<and> \<bar>val x / val nrm\<bar> \<le> 2 ^ 1023"
  proof (cases "val x = 0")
    case True
    then show ?thesis by simp
  next
    case False
    with in_range_val [OF rx] have lo: "1 / 2 ^ 500 \<le> \<bar>val x\<bar>" by simp
    have "val nrm \<le> 2 * 2 ^ 510" using up Nb by linarith
    then have "val nrm \<le> 2 ^ 511" by simp
    then have "1 / 2 ^ 1022 * val nrm \<le> 1 / 2 ^ 1022 * 2 ^ 511" by (rule mult_left_mono) simp
    also have "\<dots> \<le> (1::real) / 2 ^ 500" by (simp add: field_simps)
    also have "\<dots> \<le> \<bar>val x\<bar>" by (rule lo)
    finally have 1: "1 / 2 ^ 1022 \<le> \<bar>val x / val nrm\<bar>"
      using v0 by (simp add: abs_divide pos_le_divide_eq)
    have "\<bar>val x\<bar> \<le> 2 * val nrm" using xN dn by linarith
    also have "\<dots> \<le> 2 ^ 1023 * val nrm" using v0 by (intro mult_right_mono) simp_all
    finally have 2: "\<bar>val x / val nrm\<bar> \<le> 2 ^ 1023"
      using v0 by (simp add: abs_divide pos_divide_le_eq)
    from 1 2 show ?thesis by simp
  qed
  have vnz: "val nrm \<noteq> 0" using v0 by simp
  from fdiv_error [OF fx fn vnz q] have fin: "is_finite (fdiv x nrm)"
    and e: "\<bar>val (fdiv x nrm) - val x / val nrm\<bar> \<le> \<bar>val x / val nrm\<bar> / 2 ^ 53" by simp_all
  from same_sign_abs [OF e]
  have e': "\<bar>\<bar>val (fdiv x nrm)\<bar> - \<bar>val x / val nrm\<bar>\<bar> \<le> \<bar>val x / val nrm\<bar> / 2 ^ 53"
    and sg: "0 \<le> val (fdiv x nrm) * (val x / val nrm)" by simp_all
  from e' have n1: "near 1 \<bar>val (fdiv x nrm)\<bar> \<bar>val x / val nrm\<bar>" by (rule near_round) simp
  have "near 0 \<bar>val x\<bar> \<bar>val x\<bar>" by (rule near_same) simp
  from near_divide [OF this nn _ N0] have "near (n + 2) (\<bar>val x\<bar> / val nrm) (\<bar>val x\<bar> / N)" by simp
  then have "near (n + 2) \<bar>val x / val nrm\<bar> (\<bar>val x\<bar> / N)" using v0 by (simp add: abs_divide)
  with n1 have "near (1 + (n + 2)) \<bar>val (fdiv x nrm)\<bar> (\<bar>val x\<bar> / N)" by (rule near_trans)
  moreover have "1 + (n + 2) = n + 3" by simp
  ultimately have nr: "near (n + 3) \<bar>val (fdiv x nrm)\<bar> (\<bar>val x\<bar> / N)" by (simp only:)
  from sg have "0 \<le> (val (fdiv x nrm) * val x) / val nrm" by simp
  then have "0 \<le> val (fdiv x nrm) * val x" using v0 by (simp add: zero_le_divide_iff)
  with fin nr show ?thesis by (simp add: N_def n_def)
qed

subsection \<open>The normalized vector\<close>

lemma fmul_zero_self: "is_zero a \<Longrightarrow> fmul a a = Fin 0"
  by (cases a) (simp_all add: fmul_def signed_zero_def)

lemma foldl_squares_zero:
  "list_all is_zero v \<Longrightarrow> foldl (\<lambda>sum val. fadd sum (fmul val val)) (Fin 0) v = Fin 0"
  by (induction v) (simp_all add: fmul_zero_self fadd_zero_zero)

lemma normalizeVector_zero: "list_all is_zero v \<Longrightarrow> normalizeVector v = v"
  by (simp add: normalizeVector_def foldl_squares_zero feq_zero_zero)

lemma same_sign_diff:
  fixes r t :: real
  assumes "0 \<le> r * t"
  shows "\<bar>r - t\<bar> = \<bar>\<bar>r\<bar> - \<bar>t\<bar>\<bar>"
proof (cases "0 \<le> t")
  case True
  show ?thesis
  proof (cases "t = 0")
    case True
    then show ?thesis by simp
  next
    case False
    with True have "0 < t" by simp
    with assms have "0 \<le> r" by (simp add: zero_le_mult_iff)
    with True show ?thesis by simp
  qed
next
  case False
  then have "t < 0" by simp
  with assms have "r \<le> 0" by (simp add: zero_le_mult_iff)
  with False show ?thesis by simp
qed

lemma sum_squares_scaled:
  assumes "0 < S" and "S = sum_list (map (\<lambda>x. (val x)\<^sup>2) v)"
  shows "sum_list (map (\<lambda>x. (\<bar>val x\<bar> / sqrt S)\<^sup>2) v) = 1"
proof -
  have "(\<lambda>x. (\<bar>val x\<bar> / sqrt S)\<^sup>2) = (\<lambda>x. (val x)\<^sup>2 * (1 / S))"
    using assms(1) by (auto simp: power_divide)
  then have "sum_list (map (\<lambda>x. (\<bar>val x\<bar> / sqrt S)\<^sup>2) v) = sum_list (map (\<lambda>x. (val x)\<^sup>2) v) * (1 / S)"
    by (simp only: sum_list_mult_const)
  also have "\<dots> = 1" using assms by simp
  finally show ?thesis .
qed

lemma normalizeVector_unit:
  assumes "list_all in_range v" and "length v \<le> 2 ^ 20" and "\<not> list_all is_zero v"
  shows "length (normalizeVector v) = length v \<and>
     list_all is_finite (normalizeVector v) \<and>
     (\<forall>i<length v.
        \<bar>val (normalizeVector v ! i) - val (v ! i) / vector_norm v\<bar>
          \<le> real (length v + 3) / 2 ^ 52 * (\<bar>val (v ! i)\<bar> / vector_norm v)) \<and>
     \<bar>vector_norm (normalizeVector v) - 1\<bar> \<le> real (length v + 3) / 2 ^ 52"
proof -
  define nrm where "nrm = fsqrt (foldl fadd (Fin 0) (map (\<lambda>x. fmul x x) v))"
  define N where "N = vector_norm v"
  define S where "S = sum_list (map (\<lambda>x. (val x)\<^sup>2) v)"
  define n where "n = length v"
  have S0: "0 < S" unfolding S_def using in_range_all_finite [OF assms(1)] assms(3) by (rule not_all_zero)
  have N: "N = sqrt S" by (simp add: N_def S_def vector_norm_def)
  have N0: "0 < N" using S0 by (simp add: N)
  from computed_norm_error [OF assms] have fn: "is_finite nrm"
    and nn: "near (n + 2) (val nrm) N" by (simp_all add: nrm_def N_def n_def)
  have "0 < val nrm" using nn N0 by (rule near_pos)
  then have "\<not> is_zero nrm" using val_zero_iff [OF fn] by simp
  then have w: "normalizeVector v = map (\<lambda>x. fdiv x nrm) v"
    by (simp add: normalizeVector_def nrm_def sum_squares_foldl feq_zero Let_def)
  have c: "is_finite (fdiv x nrm) \<and> near (n + 3) \<bar>val (fdiv x nrm)\<bar> (\<bar>val x\<bar> / N) \<and>
      0 \<le> val (fdiv x nrm) * val x" if "x \<in> set v" for x
    using component_error [OF assms that] by (simp add: nrm_def N_def n_def)
  have m52: "n + 3 \<le> 2 ^ 52" using length_bound [OF assms(2)] by (simp only: n_def)
  have fin: "list_all is_finite (normalizeVector v)" using c by (simp add: w list_all_iff)
  have comp: "\<bar>val (fdiv x nrm) - val x / N\<bar> \<le> real (n + 3) / 2 ^ 52 * (\<bar>val x\<bar> / N)"
    if "x \<in> set v" for x
  proof -
    from c [OF that] have nr: "near (n + 3) \<bar>val (fdiv x nrm)\<bar> (\<bar>val x\<bar> / N)"
      and sg: "0 \<le> val (fdiv x nrm) * val x" by simp_all
    have "0 \<le> \<bar>val x\<bar> / N" using N0 by simp
    from near_tolerance [OF nr this m52]
    have t: "\<bar>\<bar>val (fdiv x nrm)\<bar> - \<bar>val x\<bar> / N\<bar> \<le> real (n + 3) / 2 ^ 52 * (\<bar>val x\<bar> / N)" .
    from sg have "0 \<le> val (fdiv x nrm) * val x / N" using N0 by simp
    then have "0 \<le> val (fdiv x nrm) * (val x / N)" by simp
    from same_sign_diff [OF this] have "\<bar>val (fdiv x nrm) - val x / N\<bar> =
        \<bar>\<bar>val (fdiv x nrm)\<bar> - \<bar>val x\<bar> / N\<bar>" using N0 by (simp add: abs_divide)
    with t show ?thesis by simp
  qed
  have sq: "near (2 * (n + 3)) ((val (fdiv x nrm))\<^sup>2) ((\<bar>val x\<bar> / N)\<^sup>2)" if "x \<in> set v" for x
  proof -
    from c [OF that] have nr: "near (n + 3) \<bar>val (fdiv x nrm)\<bar> (\<bar>val x\<bar> / N)" by simp
    have "0 \<le> \<bar>val x\<bar> / N" using N0 by simp
    from near_square [OF nr this] show ?thesis by simp
  qed
  have "near (2 * (n + 3)) (sum_list (map (\<lambda>x. (val (fdiv x nrm))\<^sup>2) v))
      (sum_list (map (\<lambda>x. (\<bar>val x\<bar> / N)\<^sup>2) v))"
    using sq by (rule near_sum_list)
  moreover have "sum_list (map (\<lambda>x. (\<bar>val x\<bar> / N)\<^sup>2) v) = 1"
    unfolding N using S0 S_def by (rule sum_squares_scaled)
  ultimately have "near (2 * (n + 3)) (sum_list (map (\<lambda>x. (val (fdiv x nrm))\<^sup>2) v)) 1" by simp
  then have "near (n + 3) (sqrt (sum_list (map (\<lambda>x. (val (fdiv x nrm))\<^sup>2) v))) (sqrt 1)"
    by (rule near_sqrt) simp
  moreover have "vector_norm (normalizeVector v) = sqrt (sum_list (map (\<lambda>x. (val (fdiv x nrm))\<^sup>2) v))"
    by (simp add: vector_norm_def w comp_def)
  ultimately have "near (n + 3) (vector_norm (normalizeVector v)) 1" by simp
  from near_tolerance [OF this _ m52] have unit: "\<bar>vector_norm (normalizeVector v) - 1\<bar> \<le> real (n + 3) / 2 ^ 52"
    by simp
  have "\<forall>i<length v. \<bar>val (normalizeVector v ! i) - val (v ! i) / N\<bar>
      \<le> real (n + 3) / 2 ^ 52 * (\<bar>val (v ! i)\<bar> / N)"
    using comp by (simp add: w)
  with fin unit show ?thesis by (simp add: w N_def n_def)
qed

subsection \<open>The dot product\<close>

text \<open>
  The products have both signs, so that the error of the running sum is bounded against
  the sum of their absolute values, which is at most the product of the two norms.
\<close>

lemma dot_step:
  fixes acc p D T xy P u r :: real
  assumes "0 \<le> u" and "1 + u \<le> P" and "\<bar>D\<bar> \<le> T"
    and "\<bar>acc - D\<bar> \<le> (P - 1) * T" and "\<bar>p - xy\<bar> \<le> u * \<bar>xy\<bar>"
    and "\<bar>r - (acc + p)\<bar> \<le> u * \<bar>acc + p\<bar>"
  shows "\<bar>r - (D + xy)\<bar> \<le> (P * (1 + u) - 1) * (T + \<bar>xy\<bar>)"
proof -
  have T0: "0 \<le> T" using assms(3) by linarith
  have a1: "\<bar>acc\<bar> \<le> T + (P - 1) * T" using assms(3,4) by linarith
  have a2: "\<bar>p\<bar> \<le> \<bar>xy\<bar> + u * \<bar>xy\<bar>" using assms(5) by linarith
  have "\<bar>acc + p\<bar> \<le> T + (P - 1) * T + (\<bar>xy\<bar> + u * \<bar>xy\<bar>)" using a1 a2 by linarith
  then have "u * \<bar>acc + p\<bar> \<le> u * (T + (P - 1) * T + (\<bar>xy\<bar> + u * \<bar>xy\<bar>))"
    using assms(1) by (rule mult_left_mono)
  with assms(6) have a3: "\<bar>r - (acc + p)\<bar> \<le> u * (T + (P - 1) * T + (\<bar>xy\<bar> + u * \<bar>xy\<bar>))"
    by linarith
  have "\<bar>r - (D + xy)\<bar> \<le> \<bar>r - (acc + p)\<bar> + \<bar>acc - D\<bar> + \<bar>p - xy\<bar>" by linarith
  also have "\<dots> \<le> u * (T + (P - 1) * T + (\<bar>xy\<bar> + u * \<bar>xy\<bar>)) + (P - 1) * T + u * \<bar>xy\<bar>"
    using a3 assms(4,5) by linarith
  also have "\<dots> = (P * (1 + u) - 1) * T + ((1 + u) * (1 + u) - 1) * \<bar>xy\<bar>"
    by (simp add: algebra_simps)
  also have "\<dots> \<le> (P * (1 + u) - 1) * T + (P * (1 + u) - 1) * \<bar>xy\<bar>"
  proof -
    have "(1 + u) * (1 + u) \<le> P * (1 + u)" using assms(1,2) by (intro mult_right_mono) simp_all
    then have "((1 + u) * (1 + u) - 1) * \<bar>xy\<bar> \<le> (P * (1 + u) - 1) * \<bar>xy\<bar>"
      by (intro mult_right_mono) simp_all
    then show ?thesis by simp
  qed
  also have "\<dots> = (P * (1 + u) - 1) * (T + \<bar>xy\<bar>)" by (simp add: algebra_simps)
  finally show ?thesis .
qed

lemma in_range_product:
  assumes "in_range x" and "in_range y"
  shows "val x * val y = 0 \<or>
     1 / 2 ^ 1022 \<le> \<bar>val x * val y\<bar> \<and> \<bar>val x * val y\<bar> \<le> 2 ^ 1023"
    and "\<bar>val x * val y\<bar> \<le> 2 ^ 1000"
proof -
  have b: "\<bar>val x * val y\<bar> \<le> 2 ^ 1000"
  proof -
    have "\<bar>val x\<bar> \<le> 2 ^ 500" "\<bar>val y\<bar> \<le> 2 ^ 500"
      using in_range_val [OF assms(1)] in_range_val [OF assms(2)] by auto
    then have "\<bar>val x\<bar> * \<bar>val y\<bar> \<le> 2 ^ 500 * 2 ^ 500" by (intro mult_mono) simp_all
    then show ?thesis by (simp add: abs_mult power_add [symmetric] del: power_numeral)
  qed
  show "\<bar>val x * val y\<bar> \<le> 2 ^ 1000" by (rule b)
  show "val x * val y = 0 \<or>
     1 / 2 ^ 1022 \<le> \<bar>val x * val y\<bar> \<and> \<bar>val x * val y\<bar> \<le> 2 ^ 1023"
  proof (cases "val x * val y = 0")
    case True
    then show ?thesis by simp
  next
    case False
    then have "val x \<noteq> 0" "val y \<noteq> 0" by simp_all
    then have "1 / 2 ^ 500 \<le> \<bar>val x\<bar>" "1 / 2 ^ 500 \<le> \<bar>val y\<bar>"
      using in_range_val [OF assms(1)] in_range_val [OF assms(2)] by auto
    then have "(1 / 2 ^ 500) * (1 / 2 ^ 500) \<le> \<bar>val x\<bar> * \<bar>val y\<bar>" by (intro mult_mono) simp_all
    moreover have "(1::real) / 2 ^ 1022 \<le> (1 / 2 ^ 500) * (1 / 2 ^ 500)" by (simp add: field_simps)
    moreover have "(2::real) ^ 1000 \<le> 2 ^ 1023" by (rule power_increasing) simp_all
    ultimately show ?thesis using b by (simp add: abs_mult)
  qed
qed

lemma dot_error:
  assumes "\<forall>(x, y) \<in> set ps. in_range x \<and> in_range y" and "length ps \<le> 2 ^ 20"
  shows "is_finite (foldl fadd (Fin 0) (map (\<lambda>(x, y). fmul x y) ps)) \<and>
     \<bar>val (foldl fadd (Fin 0) (map (\<lambda>(x, y). fmul x y) ps)) - sum_list (map (\<lambda>(x, y). val x * val y) ps)\<bar>
       \<le> (grow ^ (length ps + 1) - 1) * sum_list (map (\<lambda>(x, y). \<bar>val x * val y\<bar>) ps)"
  using assms
proof (induction ps rule: rev_induct)
  case Nil
  show ?case by (simp add: val_def)
next
  case (snoc xy ps)
  obtain x y where xy: "xy = (x, y)" by (cases xy)
  define acc where "acc = foldl fadd (Fin 0) (map (\<lambda>(x, y). fmul x y) ps)"
  define D where "D = sum_list (map (\<lambda>(x, y). val x * val y) ps)"
  define T where "T = sum_list (map (\<lambda>(x, y). \<bar>val x * val y\<bar>) ps)"
  define n where "n = length ps"
  define P where "P = grow ^ (n + 1)"
  from snoc.prems have rp: "\<forall>(x, y) \<in> set ps. in_range x \<and> in_range y"
    and rx: "in_range x" and ry: "in_range y" and len: "n + 1 \<le> 2 ^ 20"
    by (simp_all add: xy n_def)
  from len have len': "length ps \<le> 2 ^ 20" by (simp add: n_def)
  from snoc.IH [OF rp len'] have fa: "is_finite acc" and ea: "\<bar>val acc - D\<bar> \<le> (P - 1) * T"
    by (simp_all add: acc_def D_def T_def n_def P_def)
  have DT: "\<bar>D\<bar> \<le> T" unfolding D_def T_def
    by (induction ps) (auto simp: abs_mult intro: order_trans [OF abs_triangle_ineq])
  have T0: "0 \<le> T" using DT by linarith
  have Tb: "T \<le> real n * 2 ^ 1000" unfolding T_def n_def using rp
  proof (induction ps)
    case Nil
    show ?case by simp
  next
    case (Cons q ps)
    obtain a b where q: "q = (a, b)" by (cases q)
    from Cons.prems have "in_range a" "in_range b" by (simp_all add: q)
    then have "\<bar>val a * val b\<bar> \<le> 2 ^ 1000" by (rule in_range_product(2))
    moreover from Cons have "sum_list (map (\<lambda>(x, y). \<bar>val x * val y\<bar>) ps) \<le> real (length ps) * 2 ^ 1000"
      by simp
    ultimately show ?case by (simp add: q algebra_simps)
  qed
  note pr = in_range_product [OF rx ry]
  from fmul_error [OF in_range_finite [OF rx] in_range_finite [OF ry] pr(1)]
  have fp: "is_finite (fmul x y)"
    and ep: "\<bar>val (fmul x y) - val x * val y\<bar> \<le> 1 / 2 ^ 53 * \<bar>val x * val y\<bar>" by simp_all
  have m52: "n + 1 \<le> 2 ^ 52" using length_bound [OF len'] unfolding n_def by linarith
  have P2: "P \<le> 2" unfolding P_def using m52 by (rule grow_power_le_2)
  have P1: "1 + 1 / 2 ^ 53 \<le> P"
  proof -
    have "grow ^ 1 \<le> grow ^ (n + 1)" using grow_ge_1 by (rule power_increasing [rotated]) simp
    then show ?thesis by (simp add: P_def grow_def)
  qed
  have "\<bar>val acc\<bar> \<le> T + (P - 1) * T" using DT ea by linarith
  also have "\<dots> = P * T" by (simp add: algebra_simps)
  also have "\<dots> \<le> 2 * T" using P2 T0 by (rule mult_right_mono)
  finally have ab: "\<bar>val acc\<bar> \<le> 2 * T" .
  have "\<bar>val (fmul x y)\<bar> \<le> \<bar>val x * val y\<bar> + 1 / 2 ^ 53 * \<bar>val x * val y\<bar>" using ep by linarith
  also have "\<dots> \<le> 2 * \<bar>val x * val y\<bar>" by simp
  also have "\<dots> \<le> 2 * 2 ^ 1000" using pr(2) by simp
  finally have pb: "\<bar>val (fmul x y)\<bar> \<le> 2 * 2 ^ 1000" .
  have "\<bar>val acc + val (fmul x y)\<bar> \<le> 2 * (real n * 2 ^ 1000) + 2 * 2 ^ 1000"
    using ab pb Tb by linarith
  also have "\<dots> = real (n + 1) * 2 ^ 1001" by (simp add: algebra_simps)
  also have "\<dots> \<le> 2 ^ 20 * 2 ^ 1001"
  proof (rule mult_right_mono)
    show "real (n + 1) \<le> 2 ^ 20" using len by (metis of_nat_le_iff of_nat_numeral of_nat_power)
  qed simp
  also have "\<dots> \<le> 2 ^ 1023" by (simp add: power_add [symmetric] del: power_numeral)
  finally have b: "\<bar>val acc + val (fmul x y)\<bar> \<le> 2 ^ 1023" .
  from fadd_error [OF fa fp b]
  have fin: "is_finite (fadd acc (fmul x y))"
    and e: "\<bar>val (fadd acc (fmul x y)) - (val acc + val (fmul x y))\<bar>
        \<le> 1 / 2 ^ 53 * \<bar>val acc + val (fmul x y)\<bar>" by simp_all
  have u0: "(0::real) \<le> 1 / 2 ^ 53" by simp
  from dot_step [OF u0 P1 DT ea ep e]
  have "\<bar>val (fadd acc (fmul x y)) - (D + val x * val y)\<bar>
      \<le> (P * (1 + 1 / 2 ^ 53) - 1) * (T + \<bar>val x * val y\<bar>)" .
  moreover have "P * (1 + 1 / 2 ^ 53) = grow ^ (n + 1 + 1)" by (simp add: P_def grow_def)
  ultimately have "\<bar>val (fadd acc (fmul x y)) - (D + val x * val y)\<bar>
      \<le> (grow ^ (n + 1 + 1) - 1) * (T + \<bar>val x * val y\<bar>)" by simp
  with fin show ?case by (simp add: xy acc_def D_def T_def n_def)
qed

lemma cs_step:
  fixes T A B p q :: real
  assumes "0 \<le> T" and "0 \<le> A" and "0 \<le> B" and "T\<^sup>2 \<le> A * B" and "0 \<le> p" and "0 \<le> q"
  shows "(p * q + T)\<^sup>2 \<le> (p\<^sup>2 + A) * (q\<^sup>2 + B)"
proof -
  have "(2 * T * (p * q))\<^sup>2 = 4 * (p\<^sup>2 * q\<^sup>2) * T\<^sup>2"
    by (simp add: power2_eq_square algebra_simps)
  also have "\<dots> \<le> 4 * (p\<^sup>2 * q\<^sup>2) * (A * B)"
    using assms(4) by (rule mult_left_mono) simp
  also have "\<dots> \<le> (A * q\<^sup>2 + B * p\<^sup>2)\<^sup>2"
  proof -
    have "0 \<le> (A * q\<^sup>2 - B * p\<^sup>2)\<^sup>2" by simp
    also have "\<dots> = (A * q\<^sup>2 + B * p\<^sup>2)\<^sup>2 - 4 * (p\<^sup>2 * q\<^sup>2) * (A * B)"
      by (simp add: power2_eq_square algebra_simps)
    finally show ?thesis by simp
  qed
  finally have "(2 * T * (p * q))\<^sup>2 \<le> (A * q\<^sup>2 + B * p\<^sup>2)\<^sup>2" .
  moreover have "0 \<le> A * q\<^sup>2 + B * p\<^sup>2" using assms(2,3) by simp
  ultimately have k: "2 * T * (p * q) \<le> A * q\<^sup>2 + B * p\<^sup>2" by (rule power2_le_imp_le)
  have "(p * q + T)\<^sup>2 = p\<^sup>2 * q\<^sup>2 + 2 * T * (p * q) + T\<^sup>2"
    by (simp add: power2_eq_square algebra_simps)
  also have "\<dots> \<le> p\<^sup>2 * q\<^sup>2 + (A * q\<^sup>2 + B * p\<^sup>2) + A * B" using k assms(4) by linarith
  also have "\<dots> = (p\<^sup>2 + A) * (q\<^sup>2 + B)" by (simp add: algebra_simps)
  finally show ?thesis .
qed

lemma abs_products_nonneg: "0 \<le> sum_list (map (\<lambda>(x, y). \<bar>val x * val y\<bar>) ps)"
  by (induction ps) auto

lemma cauchy_schwarz:
  "(sum_list (map (\<lambda>(x, y). \<bar>val x * val y\<bar>) ps))\<^sup>2
     \<le> sum_list (map (\<lambda>(x, y). (val x)\<^sup>2) ps) * sum_list (map (\<lambda>(x, y). (val y)\<^sup>2) ps)"
proof (induction ps)
  case Nil
  show ?case by simp
next
  case (Cons xy ps)
  obtain x y where xy: "xy = (x, y)" by (cases xy)
  define T where "T = sum_list (map (\<lambda>(x, y). \<bar>val x * val y\<bar>) ps)"
  define A where "A = sum_list (map (\<lambda>(x, y). (val x)\<^sup>2) ps)"
  define B where "B = sum_list (map (\<lambda>(x, y). (val y)\<^sup>2) ps)"
  have T0: "0 \<le> T" unfolding T_def by (rule abs_products_nonneg)
  have A0: "0 \<le> A" unfolding A_def by (induction ps) auto
  have B0: "0 \<le> B" unfolding B_def by (induction ps) auto
  have IH: "T\<^sup>2 \<le> A * B" using Cons.IH by (simp add: T_def A_def B_def)
  have "(\<bar>val x\<bar> * \<bar>val y\<bar> + T)\<^sup>2 \<le> (\<bar>val x\<bar>\<^sup>2 + A) * (\<bar>val y\<bar>\<^sup>2 + B)"
    using T0 A0 B0 IH by (rule cs_step) simp_all
  then show ?case by (simp add: xy T_def A_def B_def abs_mult)
qed

lemma zip_sums:
  assumes "length a = length b"
  shows "sum_list (map (\<lambda>(x, y). (val x)\<^sup>2) (zip a b)) = sum_list (map (\<lambda>x. (val x)\<^sup>2) a)"
    and "sum_list (map (\<lambda>(x, y). (val y)\<^sup>2) (zip a b)) = sum_list (map (\<lambda>x. (val x)\<^sup>2) b)"
  using assms by (induction a b rule: list_induct2) simp_all

lemma abs_products_le_norms:
  assumes "length a = length b"
  shows "sum_list (map (\<lambda>(x, y). \<bar>val x * val y\<bar>) (zip a b)) \<le> vector_norm a * vector_norm b"
proof -
  have "(sum_list (map (\<lambda>(x, y). \<bar>val x * val y\<bar>) (zip a b)))\<^sup>2
      \<le> sum_list (map (\<lambda>x. (val x)\<^sup>2) a) * sum_list (map (\<lambda>x. (val x)\<^sup>2) b)"
    using cauchy_schwarz [of "zip a b"] by (simp only: zip_sums [OF assms])
  then have "sum_list (map (\<lambda>(x, y). \<bar>val x * val y\<bar>) (zip a b))
      \<le> sqrt (sum_list (map (\<lambda>x. (val x)\<^sup>2) a) * sum_list (map (\<lambda>x. (val x)\<^sup>2) b))"
    by (rule real_le_rsqrt)
  then show ?thesis by (simp add: vector_norm_def real_sqrt_mult)
qed

lemma abs_dot_le:
  "\<bar>sum_list (map (\<lambda>(x, y). val x * val y) ps)\<bar> \<le> sum_list (map (\<lambda>(x, y). \<bar>val x * val y\<bar>) ps)"
  by (induction ps) (auto simp: abs_mult intro: order_trans [OF abs_triangle_ineq])

lemma vector_norm_lower:
  assumes "list_all in_range v" and "\<not> list_all is_zero v"
  shows "1 / 2 ^ 500 \<le> vector_norm v"
proof -
  from assms(2) obtain x where x: "x \<in> set v" "\<not> is_zero x" by (auto simp: list_all_iff)
  from assms(1) x(1) have r: "in_range x" by (auto simp: list_all_iff)
  with x(2) have "val x \<noteq> 0" by (simp add: val_zero_iff in_range_finite)
  with in_range_val [OF r] have "1 / 2 ^ 500 \<le> \<bar>val x\<bar>" by simp
  also have "\<dots> \<le> vector_norm v" using x(1) by (rule vector_norm_member)
  finally show ?thesis .
qed

subsection \<open>The cosine\<close>

lemma cosineSimilarity_sums:
  assumes "length a = length b"
  shows "cosineSimilarity a b =
     (if is_zero (foldl fadd (Fin 0) (map (\<lambda>x. fmul x x) a)) \<or>
         is_zero (foldl fadd (Fin 0) (map (\<lambda>x. fmul x x) b))
      then Inr (Fin 0)
      else Inr (fdiv (foldl fadd (Fin 0) (map2 fmul a b))
             (fmul (fsqrt (foldl fadd (Fin 0) (map (\<lambda>x. fmul x x) a)))
                (fsqrt (foldl fadd (Fin 0) (map (\<lambda>x. fmul x x) b))))))"
  using cosine_loop_eq [OF assms, of 0 "Fin 0" "Fin 0" "Fin 0"] assms
  by (simp add: cosineSimilarity_def feq_zero)

lemma cosineSimilarity_zero:
  assumes "length a = length b" and "list_all is_zero a \<or> list_all is_zero b"
  shows "cosineSimilarity a b = Inr (Fin 0)"
proof -
  have "foldl fadd (Fin 0) (map (\<lambda>x. fmul x x) v) = Fin 0" if "list_all is_zero v" for v
    using foldl_squares_zero [OF that] by (simp add: sum_squares_foldl)
  with assms(2) have "is_zero (foldl fadd (Fin 0) (map (\<lambda>x. fmul x x) a)) \<or>
      is_zero (foldl fadd (Fin 0) (map (\<lambda>x. fmul x x) b))" by auto
  then show ?thesis by (simp add: cosineSimilarity_sums [OF assms(1)])
qed

lemma quotient_error:
  fixes d D T M den E K :: real
  assumes "\<bar>d - D\<bar> \<le> E * T" and "\<bar>D\<bar> \<le> T" and "T \<le> M" and "0 < M" and "0 \<le> E"
    and "M \<le> 2 * den" and "\<bar>M / den - 1\<bar> \<le> K"
  shows "\<bar>d / den - D / M\<bar> \<le> 2 * E + K"
proof -
  have den0: "0 < den" using assms(4,6) by linarith
  have T0: "0 \<le> T" using assms(2) by linarith
  have "\<bar>d - D\<bar> \<le> E * M" 
  proof -
    have "E * T \<le> E * M" using assms(3,5) by (rule mult_left_mono)
    with assms(1) show ?thesis by linarith
  qed
  also have "\<dots> \<le> E * (2 * den)" using assms(6,5) by (rule mult_left_mono)
  finally have "\<bar>d - D\<bar> / den \<le> 2 * E" using den0 by (simp add: pos_divide_le_eq mult_ac)
  then have 1: "\<bar>(d - D) / den\<bar> \<le> 2 * E" using den0 by (simp add: abs_divide)
  have "\<bar>D\<bar> \<le> M" using assms(2,3) by linarith
  then have "\<bar>D / M\<bar> \<le> 1" using assms(4) by (simp add: abs_divide)
  then have "\<bar>D / M\<bar> * \<bar>M / den - 1\<bar> \<le> 1 * K"
    using assms(7) by (intro mult_mono) simp_all
  then have 2: "\<bar>D / M * (M / den - 1)\<bar> \<le> K" by (simp add: abs_mult)
  have "d / den - D / M = (d - D) / den + D / M * (M / den - 1)"
    using assms(4) den0 by (simp add: field_simps)
  then have "\<bar>d / den - D / M\<bar> \<le> \<bar>(d - D) / den\<bar> + \<bar>D / M * (M / den - 1)\<bar>"
    by (simp only: abs_triangle_ineq)
  with 1 2 show ?thesis by linarith
qed

lemma real_length_bound: "length v \<le> 2 ^ 20 \<Longrightarrow> real (length v) \<le> 2 ^ 20"
  by (metis of_nat_le_iff of_nat_numeral of_nat_power)

lemma cosineSimilarity_error:
  assumes "length a = length b" and "list_all in_range a" and "list_all in_range b"
    and "length a \<le> 2 ^ 20" and "\<not> list_all is_zero a" and "\<not> list_all is_zero b"
  shows "\<exists>r. cosineSimilarity a b = Inr r \<and> is_finite r \<and>
     \<bar>val r - dot_product a b / (vector_norm a * vector_norm b)\<bar> \<le> real (length a + 3) / 2 ^ 50"
proof -
  define n where "n = length a"
  define sa where "sa = foldl fadd (Fin 0) (map (\<lambda>x. fmul x x) a)"
  define sb where "sb = foldl fadd (Fin 0) (map (\<lambda>x. fmul x x) b)"
  define d where "d = foldl fadd (Fin 0) (map2 fmul a b)"
  define den where "den = fmul (fsqrt sa) (fsqrt sb)"
  define D where "D = dot_product a b"
  define T where "T = sum_list (map (\<lambda>(x, y). \<bar>val x * val y\<bar>) (zip a b))"
  define Na where "Na = vector_norm a"
  define Nb where "Nb = vector_norm b"
  define M where "M = Na * Nb"
  define E where "E = grow ^ (n + 1) - 1"
  have lb: "length b \<le> 2 ^ 20" using assms(1,4) by simp
  have nb: "length b = n" using assms(1) by (simp add: n_def)
  have m52: "n + 3 \<le> 2 ^ 52" using length_bound [OF assms(4)] by (simp only: n_def)
  have Sa0: "0 < sum_list (map (\<lambda>x. (val x)\<^sup>2) a)"
    using in_range_all_finite [OF assms(2)] assms(5) by (rule not_all_zero)
  have Sb0: "0 < sum_list (map (\<lambda>x. (val x)\<^sup>2) b)"
    using in_range_all_finite [OF assms(3)] assms(6) by (rule not_all_zero)
  from sum_squares_error [OF assms(2,4)] have fsa: "is_finite sa"
    and nsa: "near (n + 1) (val sa) (sum_list (map (\<lambda>x. (val x)\<^sup>2) a))"
    by (simp_all add: sa_def n_def)
  from sum_squares_error [OF assms(3) lb] have fsb: "is_finite sb"
    and nsb: "near (n + 1) (val sb) (sum_list (map (\<lambda>x. (val x)\<^sup>2) b))"
    by (simp_all add: sb_def nb)
  have "0 < val sa" using nsa Sa0 by (rule near_pos)
  then have za: "\<not> is_zero sa" using val_zero_iff [OF fsa] by simp
  have "0 < val sb" using nsb Sb0 by (rule near_pos)
  then have zb: "\<not> is_zero sb" using val_zero_iff [OF fsb] by simp
  have res: "cosineSimilarity a b = Inr (fdiv d den)"
    using za zb by (simp add: cosineSimilarity_sums [OF assms(1)] sa_def sb_def d_def den_def)
  from computed_norm_error [OF assms(2,4,5)] have fna: "is_finite (fsqrt sa)"
    and nna: "near (n + 2) (val (fsqrt sa)) Na" by (simp_all add: sa_def Na_def n_def)
  from computed_norm_error [OF assms(3) lb assms(6)] have fnb: "is_finite (fsqrt sb)"
    and nnb: "near (n + 2) (val (fsqrt sb)) Nb" by (simp_all add: sb_def Nb_def nb)
  have Na0: "0 < Na" using Sa0 by (simp add: Na_def vector_norm_def)
  have Nb0: "0 < Nb" using Sb0 by (simp add: Nb_def vector_norm_def)
  have M0: "0 < M" using Na0 Nb0 by (simp add: M_def)
  have k52: "n + 2 \<le> 2 ^ 52" using m52 by linarith
  have va0: "0 < val (fsqrt sa)" using nna Na0 by (rule near_pos)
  have vb0: "0 < val (fsqrt sb)" using nnb Nb0 by (rule near_pos)
  have a_up: "val (fsqrt sa) \<le> 2 ^ 511"
  proof -
    have "val (fsqrt sa) \<le> 2 * Na" by (rule near_le_double [OF nna _ k52]) (simp add: Na0 less_imp_le)
    also have "\<dots> \<le> 2 * 2 ^ 510" using vector_norm_bound [OF assms(2,4)] by (simp add: Na_def)
    finally show ?thesis by simp
  qed
  have b_up: "val (fsqrt sb) \<le> 2 ^ 511"
  proof -
    have "val (fsqrt sb) \<le> 2 * Nb" by (rule near_le_double [OF nnb _ k52]) (simp add: Nb0 less_imp_le)
    also have "\<dots> \<le> 2 * 2 ^ 510" using vector_norm_bound [OF assms(3) lb] by (simp add: Nb_def)
    finally show ?thesis by simp
  qed
  have a_lo: "1 / 2 ^ 501 \<le> val (fsqrt sa)"
  proof -
    have "Na \<le> 2 * val (fsqrt sa)" by (rule near_ge_half [OF nna _ k52]) (simp add: Na0 less_imp_le)
    moreover have "1 / 2 ^ 500 \<le> Na" unfolding Na_def using assms(2,5) by (rule vector_norm_lower)
    ultimately show ?thesis by simp
  qed
  have b_lo: "1 / 2 ^ 501 \<le> val (fsqrt sb)"
  proof -
    have "Nb \<le> 2 * val (fsqrt sb)" by (rule near_ge_half [OF nnb _ k52]) (simp add: Nb0 less_imp_le)
    moreover have "1 / 2 ^ 500 \<le> Nb" unfolding Nb_def using assms(3,6) by (rule vector_norm_lower)
    ultimately show ?thesis by simp
  qed
  define pr where "pr = val (fsqrt sa) * val (fsqrt sb)"
  have pr0: "0 < pr" using va0 vb0 by (simp add: pr_def)
  have "(1 / 2 ^ 501) * (1 / 2 ^ 501) \<le> pr" unfolding pr_def using a_lo b_lo by (intro mult_mono) simp_all
  moreover have "(1::real) / 2 ^ 1022 \<le> (1 / 2 ^ 501) * (1 / 2 ^ 501)" by (simp add: field_simps)
  ultimately have pr_lo: "1 / 2 ^ 1022 \<le> pr" by linarith
  have "pr \<le> 2 ^ 511 * 2 ^ 511" unfolding pr_def using a_up b_up va0 vb0 by (intro mult_mono) simp_all
  moreover have "(2::real) ^ 511 * 2 ^ 511 \<le> 2 ^ 1023" by (simp add: power_add [symmetric] del: power_numeral)
  ultimately have pr_hi: "pr \<le> 2 ^ 1023" by linarith
  have "val (fsqrt sa) * val (fsqrt sb) = 0 \<or>
      1 / 2 ^ 1022 \<le> \<bar>val (fsqrt sa) * val (fsqrt sb)\<bar> \<and> \<bar>val (fsqrt sa) * val (fsqrt sb)\<bar> \<le> 2 ^ 1023"
    using pr0 pr_lo pr_hi by (simp add: pr_def [symmetric])
  from fmul_error [OF fna fnb this] have fden: "is_finite den"
    and eden: "\<bar>val den - pr\<bar> \<le> pr / 2 ^ 53" using pr0 by (simp_all add: den_def pr_def [symmetric])
  from eden have "near 1 (val den) pr" by (rule near_round) (simp add: pr0 less_imp_le)
  moreover have "near ((n + 2) + (n + 2)) pr M" unfolding pr_def M_def
    using nna nnb by (rule near_mult) (simp_all add: Na0 Nb0 less_imp_le)
  ultimately have nden: "near (1 + ((n + 2) + (n + 2))) (val den) M" by (rule near_trans)
  define k where "k = 1 + ((n + 2) + (n + 2))"
  have k: "k \<le> 2 ^ 52"
  proof -
    have "real n \<le> 2 ^ 20" unfolding n_def using assms(4) by (rule real_length_bound)
    then have "real k \<le> 2 ^ 52" by (simp add: k_def)
    then show ?thesis by (metis of_nat_le_iff of_nat_numeral of_nat_power)
  qed
  have den0: "0 < val den" using nden M0 by (rule near_pos)
  have Mden: "M \<le> 2 * val den"
    by (rule near_ge_half [OF nden [folded k_def] _ k]) (simp add: M0 less_imp_le)
  have "near 0 M M" by (rule near_same) (simp add: M0 less_imp_le)
  from near_divide [OF this nden _ M0] have "near k (M / val den) 1" using M0 by (simp add: k_def)
  from near_tolerance [OF this _ k] have K: "\<bar>M / val den - 1\<bar> \<le> real k / 2 ^ 52" by simp
  have rp: "\<forall>(x, y) \<in> set (zip a b). in_range x \<and> in_range y"
    using assms(2,3) by (auto simp: list_all_iff dest: set_zip_leftD set_zip_rightD)
  have lz: "length (zip a b) \<le> 2 ^ 20" using assms(1,4) by simp
  from dot_error [OF rp lz] have fd: "is_finite d" and ed: "\<bar>val d - D\<bar> \<le> E * T"
    using assms(1) by (simp_all add: d_def D_def dot_product_def T_def E_def n_def)
  have DT: "\<bar>D\<bar> \<le> T" unfolding D_def dot_product_def T_def by (rule abs_dot_le)
  have TM: "T \<le> M" unfolding T_def M_def Na_def Nb_def using assms(1) by (rule abs_products_le_norms)
  have T0: "0 \<le> T" using DT by linarith
  have n52: "n + 1 \<le> 2 ^ 52" using m52 by linarith
  have E0: "0 \<le> E" unfolding E_def using grow_power_ge_1 [of "n + 1"] by simp
  have Eb: "E \<le> real (n + 1) / 2 ^ 52" unfolding E_def using n52 by (rule grow_power_bound)
  have E1: "E \<le> 1" using grow_power_le_2 [OF n52] by (simp add: E_def)
  from quotient_error [OF ed DT TM M0 E0 Mden K]
  have q: "\<bar>val d / val den - D / M\<bar> \<le> 2 * E + real k / 2 ^ 52" .
  have "\<bar>val d\<bar> \<le> T + E * T" using ed DT by linarith
  also have "\<dots> \<le> T + 1 * T" using E1 T0 by (intro add_left_mono mult_right_mono)
  also have "\<dots> \<le> 2 * M" using TM by simp
  also have "\<dots> \<le> 4 * val den" using Mden by simp
  finally have "\<bar>val d\<bar> / val den \<le> 4" using den0 by (simp add: pos_divide_le_eq)
  then have q4: "\<bar>val d / val den\<bar> \<le> 4" using den0 by (simp add: abs_divide)
  then have "\<bar>val d / val den\<bar> \<le> 2 ^ 1023"
  proof -
    have "(4::real) = 2 ^ 2" by simp
    also have "\<dots> \<le> 2 ^ 1023" by (rule power_increasing) simp_all
    finally show ?thesis using q4 by linarith
  qed
  from fdiv_error_abs [OF fd fden _ this] den0
  have fr: "is_finite (fdiv d den)"
    and er: "\<bar>val (fdiv d den) - val d / val den\<bar> \<le> \<bar>val d / val den\<bar> / 2 ^ 53 + 1 / 2 ^ 1075"
    by simp_all
  have "\<bar>val d / val den\<bar> / 2 ^ 53 \<le> 4 / 2 ^ 53" using q4 by (simp add: divide_right_mono)
  moreover have "(1::real) / 2 ^ 1075 \<le> 1 / 2 ^ 53" by (simp add: field_simps)
  ultimately have er': "\<bar>val (fdiv d den) - val d / val den\<bar> \<le> 5 / 2 ^ 53" using er by linarith
  have "\<bar>val (fdiv d den) - D / M\<bar> \<le> 5 / 2 ^ 53 + (2 * E + real k / 2 ^ 52)"
    using er' q by linarith
  also have "\<dots> \<le> 5 / 2 ^ 53 + (2 * (real (n + 1) / 2 ^ 52) + real k / 2 ^ 52)" using Eb by simp
  also have "\<dots> \<le> real (n + 3) / 2 ^ 50" by (simp add: k_def field_simps)
  finally have "\<bar>val (fdiv d den) - D / M\<bar> \<le> real (n + 3) / 2 ^ 50" .
  with res fr show ?thesis by (simp add: D_def M_def Na_def Nb_def n_def)
qed

subsection \<open>Values of small vectors\<close>

lemma val_one: "val one = 1"
  by (simp add: val_def one_def)

lemma val_zero: "val (Fin 0) = 0"
  by (simp add: val_def)

lemma val_min_value: "val min_value = 1 / 2 ^ 1074"
  by (simp add: val_def min_value_def)

lemma val_two_600: "val two_600 = 2 ^ 600"
  by (simp add: val_def two_600_def)

lemma in_range_one: "in_range one"
  by (simp add: in_range_def one_def)

lemma in_range_zero: "in_range (Fin 0)"
  by (simp add: in_range_def)

lemma vector_norm_single: "vector_norm [x] = \<bar>val x\<bar>"
  by (simp add: vector_norm_def)

lemma cosine_single:
  "val x \<noteq> 0 \<Longrightarrow> dot_product [x] [x] / (vector_norm [x] * vector_norm [x]) = 1"
  by (simp add: dot_product_def vector_norm_single)

lemma vector_norm_min_value: "vector_norm [min_value] \<noteq> 0"
  by (simp add: vector_norm_single val_min_value)

lemma cosine_exact_min_value:
  "dot_product [min_value] [min_value] / (vector_norm [min_value] * vector_norm [min_value]) = 1"
  by (rule cosine_single) (simp add: val_min_value)

lemma vector_norm_two_600: "vector_norm [two_600] \<noteq> 0"
  by (simp add: vector_norm_single val_two_600)

lemma vector_norm_one_zero: "vector_norm [one, Fin 0] = 1"
  by (simp add: vector_norm_def val_one val_zero)

lemma vector_norm_zero_zero: "vector_norm [Fin 0, Fin 0] = 0"
  by (simp add: vector_norm_def val_zero)

lemma dot_product_one_zero: "dot_product [one, Fin 0] [one, Fin 0] = 1"
  by (simp add: dot_product_def val_one val_zero)

lemma normalizeVector_one_zero: "normalizeVector [one, Fin 0] = [one, Fin 0]"
  by (simp add: normalizeVector_def one_arith)

lemma fmul_PosInf_PosInf: "fmul PosInf PosInf = PosInf"
  by (simp add: fmul_def signed_inf_def)

lemma cosine_two_600: "cosineSimilarity [two_600] [two_600] = Inr NaN"
  by (simp add: cosineSimilarity_def cosine_loop.simps elem_at_def fmul_two_600 fadd_zero_PosInf
      feq_PosInf_zero fmul_PosInf_PosInf fdiv_PosInf_PosInf)

lemma cosine_min_value: "cosineSimilarity [min_value] [min_value] = Inr (Fin 0)"
  by (simp add: cosineSimilarity_def cosine_loop.simps elem_at_def fmul_min_value fadd_zero_zero
      feq_zero_zero)

lemma is_finite_min_value: "is_finite min_value"
  by (simp add: min_value_def)

lemma is_finite_two_600: "is_finite two_600"
  by (simp add: two_600_def)

subsection \<open>The cosine similarity\<close>

text \<open>
  Claim C3, as amended. \<^verbatim>\<open>cosineSimilarity\<close> throws its length error exactly when the
  two lengths differ. On vectors of equal length it returns \<open>0\<close> when either vector has
  finite components and a norm of exactly zero. When both vectors have a norm that is
  not zero, at most \<^verbatim>\<open>2^20\<close> components, and components that are zero or of a size
  between \<^verbatim>\<open>2^-500\<close> and \<^verbatim>\<open>2^500\<close>, it returns a finite number that differs from the
  dot product divided by the product of the two norms by at most \<^verbatim>\<open>(n + 3) * 2^-50\<close>,
  \<open>n\<close> being the length.
\<close>

theorem cosine_similarity_formula:
  "(length a \<noteq> length b \<longrightarrow>
      cosineSimilarity a b = Inl (Error ''Vectors must have the same length'')) \<and>
   ((\<exists>e. cosineSimilarity a b = Inl e) \<longleftrightarrow> length a \<noteq> length b) \<and>
   (length a = length b \<and>
    (list_all is_finite a \<and> vector_norm a = 0 \<or> list_all is_finite b \<and> vector_norm b = 0) \<longrightarrow>
      cosineSimilarity a b = Inr (Fin 0)) \<and>
   (length a = length b \<and> list_all in_range a \<and> list_all in_range b \<and> length a \<le> 2 ^ 20 \<and>
    vector_norm a \<noteq> 0 \<and> vector_norm b \<noteq> 0 \<longrightarrow>
      (\<exists>r. cosineSimilarity a b = Inr r \<and> is_finite r \<and>
         \<bar>val r - dot_product a b / (vector_norm a * vector_norm b)\<bar>
           \<le> real (length a + 3) / 2 ^ 50))"
proof (intro conjI impI)
  assume "length a \<noteq> length b"
  then show "cosineSimilarity a b = Inl (Error ''Vectors must have the same length'')"
    by (simp add: cosineSimilarity_def)
next
  show "(\<exists>e. cosineSimilarity a b = Inl e) \<longleftrightarrow> length a \<noteq> length b"
    by (simp add: cosineSimilarity_def split: prod.splits)
next
  assume h: "length a = length b \<and>
    (list_all is_finite a \<and> vector_norm a = 0 \<or> list_all is_finite b \<and> vector_norm b = 0)"
  then have "list_all is_zero a \<or> list_all is_zero b"
    using vector_norm_zero_iff [of a] vector_norm_zero_iff [of b] by auto
  with h show "cosineSimilarity a b = Inr (Fin 0)" by (simp add: cosineSimilarity_zero)
next
  assume h: "length a = length b \<and> list_all in_range a \<and> list_all in_range b \<and>
    length a \<le> 2 ^ 20 \<and> vector_norm a \<noteq> 0 \<and> vector_norm b \<noteq> 0"
  then have "\<not> list_all is_zero a" "\<not> list_all is_zero b"
    using vector_norm_zero_iff [OF in_range_all_finite, of a]
      vector_norm_zero_iff [OF in_range_all_finite, of b] by simp_all
  with h show "\<exists>r. cosineSimilarity a b = Inr r \<and> is_finite r \<and>
      \<bar>val r - dot_product a b / (vector_norm a * vector_norm b)\<bar> \<le> real (length a + 3) / 2 ^ 50"
    by (intro cosineSimilarity_error) simp_all
qed

text \<open>
  Claim C3 as stated fails outside that range. The smallest positive double has a norm
  that is not zero, and its cosine with itself is \<open>1\<close>; its square underflows to zero,
  and \<^verbatim>\<open>cosineSimilarity\<close> returns \<open>0\<close>. The square of \<^verbatim>\<open>2^600\<close> overflows, and the
  result is NaN.
\<close>

theorem cosine_out_of_range:
  "is_double min_value \<and> list_all is_finite [min_value] \<and> vector_norm [min_value] \<noteq> 0 \<and>
   dot_product [min_value] [min_value] / (vector_norm [min_value] * vector_norm [min_value]) = 1 \<and>
   cosineSimilarity [min_value] [min_value] = Inr (Fin 0) \<and> val (Fin 0) = 0 \<and>
   is_double two_600 \<and> list_all is_finite [two_600] \<and> vector_norm [two_600] \<noteq> 0 \<and>
   cosineSimilarity [two_600] [two_600] = Inr NaN"
  by (simp add: is_double_min_value is_finite_min_value vector_norm_min_value
      cosine_exact_min_value cosine_min_value val_zero is_double_two_600 is_finite_two_600
      vector_norm_two_600 cosine_two_600)

theorem cosine_similarity_formula_witness:
  "length [one, Fin 0] = length [one, Fin 0] \<and> list_all in_range [one, Fin 0] \<and>
   length [one, Fin 0] \<le> 2 ^ 20 \<and> vector_norm [one, Fin 0] \<noteq> 0 \<and>
   cosineSimilarity [one, Fin 0] [one, Fin 0] = Inr one \<and> is_finite one \<and>
   \<bar>val one - dot_product [one, Fin 0] [one, Fin 0]
        / (vector_norm [one, Fin 0] * vector_norm [one, Fin 0])\<bar>
     \<le> real (length [one, Fin 0] + 3) / 2 ^ 50 \<and>
   list_all is_finite [Fin 0, Fin 0] \<and> vector_norm [Fin 0, Fin 0] = 0 \<and>
   cosineSimilarity [Fin 0, Fin 0] [one, Fin 0] = Inr (Fin 0) \<and>
   length [one] \<noteq> length ([] :: number list) \<and>
   cosineSimilarity [one] [] = Inl (Error ''Vectors must have the same length'')"
  using cosine_similarity_formula [of "[one, Fin 0]" "[one, Fin 0]"]
    cosine_similarity_formula [of "[Fin 0, Fin 0]" "[one, Fin 0]"]
    cosine_similarity_formula [of "[one]" "[]"]
  by (simp add: in_range_one in_range_zero vector_norm_one_zero vector_norm_zero_zero
      dot_product_one_zero cosine_unit_same is_finite_one val_one)

subsection \<open>The normalized vector as an array\<close>

lemma normalizeVector_ref_eq:
  "normalizeVector_ref h vector =
     (if is_zero (fsqrt (foldl fadd (Fin 0) (map (\<lambda>x. fmul x x) (h ! vector)))) then (h, vector)
      else (h @ [normalizeVector (h ! vector)], length h))"
  by (simp add: normalizeVector_ref_def normalizeVector_def sum_squares_foldl feq_zero Let_def)

lemma normalizeVector_same:
  "is_zero (fsqrt (foldl fadd (Fin 0) (map (\<lambda>x. fmul x x) v))) \<Longrightarrow> normalizeVector v = v"
  by (simp add: normalizeVector_def sum_squares_foldl feq_zero Let_def)

lemma computed_norm_zero:
  "list_all is_zero v \<Longrightarrow> is_zero (fsqrt (foldl fadd (Fin 0) (map (\<lambda>x. fmul x x) v)))"
  using foldl_squares_zero [of v] by (simp add: sum_squares_foldl)

lemma computed_norm_not_zero:
  assumes "list_all in_range v" and "length v \<le> 2 ^ 20" and "\<not> list_all is_zero v"
  shows "\<not> is_zero (fsqrt (foldl fadd (Fin 0) (map (\<lambda>x. fmul x x) v)))"
proof -
  from computed_norm_error [OF assms]
  have f: "is_finite (fsqrt (foldl fadd (Fin 0) (map (\<lambda>x. fmul x x) v)))"
    and n: "near (length v + 2) (val (fsqrt (foldl fadd (Fin 0) (map (\<lambda>x. fmul x x) v)))) (vector_norm v)"
    by simp_all
  have "0 < sum_list (map (\<lambda>x. (val x)\<^sup>2) v)"
    using in_range_all_finite [OF assms(1)] assms(3) by (rule not_all_zero)
  then have "0 < vector_norm v" by (simp add: vector_norm_def)
  with n have "0 < val (fsqrt (foldl fadd (Fin 0) (map (\<lambda>x. fmul x x) v)))" by (rule near_pos)
  then show ?thesis using val_zero_iff [OF f] by simp
qed

text \<open>
  Claim C6, as amended. \<^verbatim>\<open>normalizeVector\<close> changes no array that existed before the
  call, the input included. When the input has finite components and a norm of exactly
  zero, it returns the reference it was given. When the input has a norm that is not
  zero, at most \<^verbatim>\<open>2^20\<close> components, and components that are zero or of a size between
  \<^verbatim>\<open>2^-500\<close> and \<^verbatim>\<open>2^500\<close>, it returns a reference to one new array of the same length
  and of finite components: each component is the input's component divided by the
  input's norm, up to the fraction \<^verbatim>\<open>(n + 3) * 2^-52\<close> of that quotient, and the norm of
  the new array differs from \<open>1\<close> by at most \<^verbatim>\<open>(n + 3) * 2^-52\<close>, \<open>n\<close> being the length.
\<close>

theorem normalize_vector_result:
  "vector < length h \<longrightarrow>
     (case normalizeVector_ref h vector of
        (h', r) \<Rightarrow>
          (\<forall>p < length h. h' ! p = h ! p) \<and>
          r < length h' \<and>
          h' ! r = normalizeVector (h ! vector) \<and>
          (list_all is_finite (h ! vector) \<and> vector_norm (h ! vector) = 0 \<longrightarrow>
             r = vector \<and> h' = h) \<and>
          (list_all in_range (h ! vector) \<and> length (h ! vector) \<le> 2 ^ 20 \<and>
           vector_norm (h ! vector) \<noteq> 0 \<longrightarrow>
             r = length h \<and> h' = h @ [h' ! r] \<and>
             length (h' ! r) = length (h ! vector) \<and>
             list_all is_finite (h' ! r) \<and>
             (\<forall>i < length (h ! vector).
                \<bar>val (h' ! r ! i) - val (h ! vector ! i) / vector_norm (h ! vector)\<bar>
                  \<le> real (length (h ! vector) + 3) / 2 ^ 52
                      * (\<bar>val (h ! vector ! i)\<bar> / vector_norm (h ! vector))) \<and>
             \<bar>vector_norm (h' ! r) - 1\<bar> \<le> real (length (h ! vector) + 3) / 2 ^ 52))"
proof
  assume lt: "vector < length h"
  define v where "v = h ! vector"
  define z where "z = is_zero (fsqrt (foldl fadd (Fin 0) (map (\<lambda>x. fmul x x) v)))"
  have zero: "z" if "list_all is_finite v" "vector_norm v = 0"
    using that computed_norm_zero [of v] vector_norm_zero_iff [of v] by (simp add: z_def)
  have nonzero: "\<not> z \<and> length (normalizeVector v) = length v \<and>
      list_all is_finite (normalizeVector v) \<and>
      (\<forall>i<length v. \<bar>val (normalizeVector v ! i) - val (v ! i) / vector_norm v\<bar>
         \<le> real (length v + 3) / 2 ^ 52 * (\<bar>val (v ! i)\<bar> / vector_norm v)) \<and>
      \<bar>vector_norm (normalizeVector v) - 1\<bar> \<le> real (length v + 3) / 2 ^ 52"
    if "list_all in_range v" "length v \<le> 2 ^ 20" "vector_norm v \<noteq> 0"
  proof -
    have nz: "\<not> list_all is_zero v"
      using that(3) vector_norm_zero_iff [OF in_range_all_finite [OF that(1)]] by simp
    from computed_norm_not_zero [OF that(1,2) nz] normalizeVector_unit [OF that(1,2) nz]
    show ?thesis by (simp add: z_def)
  qed
  show "case normalizeVector_ref h vector of
        (h', r) \<Rightarrow>
          (\<forall>p < length h. h' ! p = h ! p) \<and>
          r < length h' \<and>
          h' ! r = normalizeVector (h ! vector) \<and>
          (list_all is_finite (h ! vector) \<and> vector_norm (h ! vector) = 0 \<longrightarrow>
             r = vector \<and> h' = h) \<and>
          (list_all in_range (h ! vector) \<and> length (h ! vector) \<le> 2 ^ 20 \<and>
           vector_norm (h ! vector) \<noteq> 0 \<longrightarrow>
             r = length h \<and> h' = h @ [h' ! r] \<and>
             length (h' ! r) = length (h ! vector) \<and>
             list_all is_finite (h' ! r) \<and>
             (\<forall>i < length (h ! vector).
                \<bar>val (h' ! r ! i) - val (h ! vector ! i) / vector_norm (h ! vector)\<bar>
                  \<le> real (length (h ! vector) + 3) / 2 ^ 52
                      * (\<bar>val (h ! vector ! i)\<bar> / vector_norm (h ! vector))) \<and>
             \<bar>vector_norm (h' ! r) - 1\<bar> \<le> real (length (h ! vector) + 3) / 2 ^ 52)"
  proof (cases z)
    case True
    then have r: "normalizeVector_ref h vector = (h, vector)"
      by (simp add: normalizeVector_ref_eq z_def v_def)
    have s: "normalizeVector v = v" using True unfolding z_def by (rule normalizeVector_same)
    show ?thesis using lt True nonzero by (auto simp: r s v_def [symmetric])
  next
    case False
    then have r: "normalizeVector_ref h vector = (h @ [normalizeVector v], length h)"
      by (simp add: normalizeVector_ref_eq z_def v_def)
    show ?thesis using lt False zero nonzero
      by (auto simp: r v_def [symmetric] nth_append)
  qed
qed

text \<open>
  Claim C6 as stated fails outside that range. For the one-element vector holding
  \<^verbatim>\<open>2^600\<close> the sum of squares overflows, the computed norm is \<open>+\<infinity>\<close>, and the
  component divided by it is \<open>0\<close>: the vector has a norm that is not zero, and the
  result has the norm \<open>0\<close>. For the one holding the smallest positive double the square
  underflows to zero and the vector is returned as it is, with its norm of \<^verbatim>\<open>2^-1074\<close>.
\<close>

theorem normalize_overflow:
  "is_double two_600 \<and> list_all is_finite [two_600] \<and> vector_norm [two_600] \<noteq> 0 \<and>
   normalizeVector [two_600] = [Fin 0] \<and> vector_norm (normalizeVector [two_600]) = 0 \<and>
   is_double min_value \<and> list_all is_finite [min_value] \<and> vector_norm [min_value] \<noteq> 0 \<and>
   normalizeVector [min_value] = [min_value] \<and> vector_norm (normalizeVector [min_value]) \<noteq> 1"
  by (simp add: is_double_two_600 is_finite_two_600 vector_norm_single val_two_600
      normalizeVector_def fmul_two_600 fadd_zero_PosInf fdiv_two_600_PosInf feq_PosInf_zero
      val_zero is_double_min_value is_finite_min_value val_min_value fmul_min_value
      fadd_zero_zero feq_zero_zero)

theorem normalize_vector_result_witness:
  "(0::nat) < length [[one, Fin 0], [Fin 0, Fin 0]] \<and>
   list_all in_range [one, Fin 0] \<and> length [one, Fin 0] \<le> 2 ^ 20 \<and>
   vector_norm [one, Fin 0] \<noteq> 0 \<and>
   normalizeVector_ref [[one, Fin 0], [Fin 0, Fin 0]] 0
     = ([[one, Fin 0], [Fin 0, Fin 0], [one, Fin 0]], 2) \<and>
   \<bar>vector_norm [one, Fin 0] - 1\<bar> \<le> real (length [one, Fin 0] + 3) / 2 ^ 52 \<and>
   list_all is_finite [Fin 0, Fin 0] \<and> vector_norm [Fin 0, Fin 0] = 0 \<and>
   normalizeVector_ref [[one, Fin 0], [Fin 0, Fin 0]] 1
     = ([[one, Fin 0], [Fin 0, Fin 0]], 1)"
  using normalize_vector_result [of 0 "[[one, Fin 0], [Fin 0, Fin 0]]"]
    normalize_vector_result [of 1 "[[one, Fin 0], [Fin 0, Fin 0]]"]
  by (simp add: normalizeVector_ref_def one_arith Let_def in_range_one in_range_zero
      vector_norm_one_zero vector_norm_zero_zero)
text \<open>
  Claim C10. On the two empty vectors \<^verbatim>\<open>cosineSimilarity\<close> returns \<open>0\<close>: the loop does
  not run, \<^verbatim>\<open>normA\<close> is \<open>0\<close> and the zero-norm test returns. \<^verbatim>\<open>euclideanDistance\<close> returns
  the root of the empty sum, \<open>0\<close>. Neither throws.
\<close>

theorem empty_vectors:
  "cosineSimilarity [] [] = Inr (Fin 0) \<and> euclideanDistance [] [] = Inr (Fin 0)"
  by (simp add: cosineSimilarity_def euclideanDistance_def feq_def cosine_loop.simps
      euclidean_loop.simps)
end
